theory Spec2Isabelle
  imports
    Complex_Main
    "HOL-Library.Char_ord"
    "HOL-Library.List_Lexorder"
    "HOL-Library.Product_Lexorder"
    "HOL-Library.Multiset"
begin

section \<open>Duct-wise shipping summary: the pipeline of app.py\<close>

text \<open>
  The development embeds the helpers and report builders of \<^verbatim>\<open>src/app.py\<close>:
  \<^verbatim>\<open>extract_duct_no\<close>, \<^verbatim>\<open>extract_unit_wbs\<close>, \<^verbatim>\<open>detect_duct_prefix_for_block\<close>,
  \<^verbatim>\<open>build_duct_key_column\<close>, \<^verbatim>\<open>load_uploaded_excels\<close>,
  \<^verbatim>\<open>summarize_by_duct_vendor_po\<close> and \<^verbatim>\<open>build_master_sheet\<close>.

  Scope of the model.
  \<^item> Text is ASCII: a \<^typ>\<open>char\<close> stands for one code point below 128. On such text
    Python's \<^verbatim>\<open>str.upper\<close>, \<^verbatim>\<open>str.strip\<close> and the classes \<^verbatim>\<open>\d\<close>, \<^verbatim>\<open>\s\<close>, \<^verbatim>\<open>\b\<close> of
    \<^verbatim>\<open>re\<close> are the functions defined below.
  \<^item> The data frame operations are pandas 2.x on object columns, as the code was
    written for: \<^verbatim>\<open>astype(str)\<close> turns a missing value into the text
    \<^verbatim>\<open>None\<close> or \<^verbatim>\<open>nan\<close>, a sort on several columns is stable, a group-by with
    \<^verbatim>\<open>dropna=False\<close> keeps missing keys as a group of their own and lists it last.
\<close>

subsection \<open>Cells\<close>

text \<open>
  A cell holds a text, Python's \<^verbatim>\<open>None\<close> (what the helpers return) or the float
  \<^verbatim>\<open>NaN\<close> (what \<^verbatim>\<open>read_excel(dtype=str)\<close> leaves for an empty cell).
\<close>

datatype cell = NaN | PyNone | Str string

fun notna :: "cell \<Rightarrow> bool" where
  "notna (Str s) = True"
| "notna NaN = False"
| "notna PyNone = False"

text \<open>\<^verbatim>\<open>astype(str)\<close> on an object column: \<^verbatim>\<open>str(x)\<close> of every element.\<close>

fun astype_str :: "cell \<Rightarrow> string" where
  "astype_str (Str s) = s"
| "astype_str NaN = ''nan''"
| "astype_str PyNone = ''None''"

subsection \<open>Python string methods on ASCII text\<close>

definition is_space :: "char \<Rightarrow> bool" where
  "is_space c = (c \<in> set [CHR 0x09, CHR 0x0A, CHR 0x0B, CHR 0x0C, CHR 0x0D,
                            CHR 0x1C, CHR 0x1D, CHR 0x1E, CHR 0x1F, CHR 0x20])"

definition is_digit :: "char \<Rightarrow> bool" where
  "is_digit c = (c \<in> set ''0123456789'')"

definition is_upper_AZ :: "char \<Rightarrow> bool" where
  "is_upper_AZ c = (c \<in> set ''ABCDEFGHIJKLMNOPQRSTUVWXYZ'')"

definition is_lower_az :: "char \<Rightarrow> bool" where
  "is_lower_az c = (c \<in> set ''abcdefghijklmnopqrstuvwxyz'')"

text \<open>The class \<^verbatim>\<open>\w\<close>: letters, digits and the underscore.\<close>

definition is_word :: "char \<Rightarrow> bool" where
  "is_word c = (is_upper_AZ c \<or> is_lower_az c \<or> is_digit c \<or> c = CHR ''_'')"

definition upper_char :: "char \<Rightarrow> char" where
  "upper_char c =
     (case map_of (zip ''abcdefghijklmnopqrstuvwxyz'' ''ABCDEFGHIJKLMNOPQRSTUVWXYZ'') c of
        Some u \<Rightarrow> u
      | None \<Rightarrow> c)"

definition upper :: "string \<Rightarrow> string" where
  "upper s = map upper_char s"

text \<open>\<^verbatim>\<open>s.strip(chars)\<close>: drop the characters of the class at both ends.\<close>

definition strip_class :: "(char \<Rightarrow> bool) \<Rightarrow> string \<Rightarrow> string" where
  "strip_class p s = rev (dropWhile p (rev (dropWhile p s)))"

definition strip :: "string \<Rightarrow> string" where
  "strip s = strip_class is_space s"

text \<open>
  \<^verbatim>\<open>s.split(sep)\<close> for a separator of one character: every occurrence splits, empty
  pieces are kept, and the result is never empty.
\<close>

fun split_on :: "char \<Rightarrow> string \<Rightarrow> string list" where
  "split_on sep [] = [[]]"
| "split_on sep (c # cs) =
     (if c = sep then [] # split_on sep cs
      else (case split_on sep cs of p # ps \<Rightarrow> (c # p) # ps | [] \<Rightarrow> [[c]]))"

subsection \<open>extract_unit_wbs\<close>

text \<open>
  \<^verbatim>\<open>
  def extract_unit_wbs(pkg_code: str):
      if not isinstance(pkg_code, str):
          return None, None
      s = pkg_code.strip().strip("-")
      parts = s.split("-")
      if len(parts) >= 2:
          return parts[0], f"{parts[0]}-{parts[1]}"
      elif len(parts) == 1 and parts[0]:
          return parts[0], None
      return None, None
  \<close>
  The indices \<^verbatim>\<open>parts[0]\<close> and \<^verbatim>\<open>parts[1]\<close> are read only under the length tests, so
  they are in range wherever the model reads them.
\<close>

definition extract_unit_wbs :: "cell \<Rightarrow> cell \<times> cell" where
  "extract_unit_wbs pkg_code =
     (case pkg_code of
        Str t \<Rightarrow>
          (let s = strip_class (\<lambda>c. c = CHR ''-'') (strip t);
               parts = split_on (CHR ''-'') s
           in if length parts \<ge> 2 then (Str (parts ! 0), Str (parts ! 0 @ ''-'' @ parts ! 1))
              else if length parts = 1 \<and> parts ! 0 \<noteq> [] then (Str (parts ! 0), PyNone)
              else (PyNone, PyNone))
      | _ \<Rightarrow> (PyNone, PyNone))"

text \<open>
  The same function in the words of the specification: the hyphen-separated segments of
  the trimmed code, read by their number.
\<close>

definition segments :: "string \<Rightarrow> string list" where
  "segments t = split_on (CHR ''-'') (strip_class (\<lambda>c. c = CHR ''-'') (strip t))"

definition spec_unit_wbs :: "cell \<Rightarrow> cell \<times> cell" where
  "spec_unit_wbs code =
     (case code of
        Str t \<Rightarrow>
          (case segments t of
             seg0 # seg1 # _ \<Rightarrow> (Str seg0, Str (seg0 @ ''-'' @ seg1))
           | [seg0] \<Rightarrow> (if seg0 = [] then (PyNone, PyNone) else (Str seg0, PyNone))
           | [] \<Rightarrow> (PyNone, PyNone))
      | _ \<Rightarrow> (PyNone, PyNone))"

subsection \<open>Regular expressions as Python's re matches them\<close>

text \<open>
  The patterns of the program use character classes, bounded and unbounded greedy
  repetition of a class, concatenation, alternation, one capturing group, the word
  boundary \<^verbatim>\<open>\b\<close> and the anchors \<^verbatim>\<open>^\<close> and \<^verbatim>\<open>$\<close>. The matcher below is the
  backtracking search of \<^verbatim>\<open>re\<close>: it lists the ways a pattern can match at a position,
  the preferred one first (the left alternative before the right one, more repetitions
  before fewer).
\<close>

datatype cls =
    Digit         \<comment> \<open>\<^verbatim>\<open>\d\<close>\<close>
  | UpperAZ       \<comment> \<open>\<^verbatim>\<open>[A-Z]\<close>\<close>
  | Space         \<comment> \<open>\<^verbatim>\<open>\s\<close>\<close>
  | Lit char      \<comment> \<open>a literal character\<close>
  | LitI char     \<comment> \<open>a literal character under \<^verbatim>\<open>re.IGNORECASE\<close>\<close>

fun in_cls :: "cls \<Rightarrow> char \<Rightarrow> bool" where
  "in_cls Digit c = is_digit c"
| "in_cls UpperAZ c = is_upper_AZ c"
| "in_cls Space c = is_space c"
| "in_cls (Lit a) c = (c = a)"
| "in_cls (LitI a) c = (upper_char c = upper_char a)"

datatype rx =
    Eps                         \<comment> \<open>the empty pattern\<close>
  | Sym cls                     \<comment> \<open>one character of a class\<close>
  | Rep cls nat "nat option"    \<comment> \<open>\<^verbatim>\<open>x{m,n}\<close>, greedy; no upper bound: \<^verbatim>\<open>x*\<close> is \<open>Rep x 0 None\<close>\<close>
  | Cat rx rx
  | Alt rx rx
  | Grp rx                      \<comment> \<open>a capturing group\<close>
  | WordB                       \<comment> \<open>\<^verbatim>\<open>\b\<close>\<close>
  | Bol                         \<comment> \<open>\<^verbatim>\<open>^\<close>\<close>
  | Eol                         \<comment> \<open>\<^verbatim>\<open>$\<close>: the end, or before a newline that ends the text\<close>

text \<open>
  A position of the matcher: the character before it (none at the start of the text),
  the text from it on, and the groups captured so far.
\<close>

type_synonym mstate = "char option \<times> string \<times> string list"

fun rep_run :: "(char \<Rightarrow> bool) \<Rightarrow> nat \<Rightarrow> nat option \<Rightarrow> char option \<Rightarrow> string
                  \<Rightarrow> (char option \<times> string) list" where
  "rep_run p m n prev [] = (if m = 0 then [(prev, [])] else [])"
| "rep_run p m n prev (c # cs) =
     (if p c \<and> n \<noteq> Some 0 then rep_run p (m - 1) (map_option (\<lambda>k. k - 1) n) (Some c) cs
      else [])
     @ (if m = 0 then [(prev, c # cs)] else [])"

definition word_before :: "char option \<Rightarrow> bool" where
  "word_before prev = (case prev of None \<Rightarrow> False | Some c \<Rightarrow> is_word c)"

definition word_at :: "string \<Rightarrow> bool" where
  "word_at s = (case s of [] \<Rightarrow> False | c # _ \<Rightarrow> is_word c)"

fun run :: "rx \<Rightarrow> mstate \<Rightarrow> mstate list" where
  "run Eps st = [st]"
| "run (Sym x) (prev, s, gs) =
     (case s of [] \<Rightarrow> [] | c # cs \<Rightarrow> if in_cls x c then [(Some c, cs, gs)] else [])"
| "run (Rep x m n) (prev, s, gs) = map (\<lambda>(q, r). (q, r, gs)) (rep_run (in_cls x) m n prev s)"
| "run (Cat a b) st = concat (map (run b) (run a st))"
| "run (Alt a b) st = run a st @ run b st"
| "run (Grp a) (prev, s, gs) =
     map (\<lambda>(q, r, gs'). (q, r, gs' @ [take (length s - length r) s])) (run a (prev, s, gs))"
| "run WordB (prev, s, gs) = (if word_before prev \<noteq> word_at s then [(prev, s, gs)] else [])"
| "run Bol (prev, s, gs) = (if prev = None then [(prev, s, gs)] else [])"
| "run Eol (prev, s, gs) = (if s = [] \<or> s = [CHR 0x0A] then [(prev, s, gs)] else [])"

text \<open>
  \<^verbatim>\<open>pattern.match(s)\<close> matches at the start only; \<^verbatim>\<open>pattern.search(s)\<close> tries every
  position from the left, the end of the text included. Both give the groups of the
  first match found, or nothing.
\<close>

definition match_at :: "rx \<Rightarrow> char option \<Rightarrow> string \<Rightarrow> string list option" where
  "match_at r prev s = (case run r (prev, s, []) of [] \<Rightarrow> None | (_, _, gs) # _ \<Rightarrow> Some gs)"

definition re_match :: "rx \<Rightarrow> string \<Rightarrow> string list option" where
  "re_match r s = match_at r None s"

fun search_from :: "rx \<Rightarrow> char option \<Rightarrow> string \<Rightarrow> string list option" where
  "search_from r prev [] = match_at r prev []"
| "search_from r prev (c # cs) =
     (case match_at r prev (c # cs) of
        Some gs \<Rightarrow> Some gs
      | None \<Rightarrow> search_from r (Some c) cs)"

definition re_search :: "rx \<Rightarrow> string \<Rightarrow> string list option" where
  "re_search r s = search_from r None s"

text \<open>A literal text, and a literal text under \<^verbatim>\<open>re.IGNORECASE\<close>.\<close>

fun lits :: "string \<Rightarrow> rx" where
  "lits [] = Eps"
| "lits (c # cs) = Cat (Sym (Lit c)) (lits cs)"

fun litsI :: "string \<Rightarrow> rx" where
  "litsI [] = Eps"
| "litsI (c # cs) = Cat (Sym (LitI c)) (litsI cs)"

text \<open>
  The precompiled patterns:
  \<^verbatim>\<open>
  RE_DUCT_NO   = re.compile(r"(\d{3})(?:P\d{2}|[A-Z]{1,3}\d{2,3}|\d{3})$")
  RE_AB_CODE   = re.compile(r"\bAB\s*\d{3}\b")
  RE_GB_CODE   = re.compile(r"\bGB\s*\d{3}\b")
  RE_PANEL_TAG = re.compile(r"PANEL|PANELASSY", re.IGNORECASE)
  RE_PANEL_NO  = re.compile(r"^P(\d+)$")
  RE_NUMERIC   = re.compile(r"^\d+$")
  \<close>
\<close>

definition RE_DUCT_NO :: rx where
  "RE_DUCT_NO =
     Cat (Grp (Rep Digit 3 (Some 3)))
       (Cat (Alt (Cat (Sym (Lit (CHR ''P''))) (Rep Digit 2 (Some 2)))
              (Alt (Cat (Rep UpperAZ 1 (Some 3)) (Rep Digit 2 (Some 3)))
                   (Rep Digit 3 (Some 3))))
            Eol)"

definition RE_AB_CODE :: rx where
  "RE_AB_CODE =
     Cat WordB (Cat (lits ''AB'') (Cat (Rep Space 0 None) (Cat (Rep Digit 3 (Some 3)) WordB)))"

definition RE_GB_CODE :: rx where
  "RE_GB_CODE =
     Cat WordB (Cat (lits ''GB'') (Cat (Rep Space 0 None) (Cat (Rep Digit 3 (Some 3)) WordB)))"

definition RE_PANEL_TAG :: rx where
  "RE_PANEL_TAG = Alt (litsI ''PANEL'') (litsI ''PANELASSY'')"

definition RE_PANEL_NO :: rx where
  "RE_PANEL_NO = Cat Bol (Cat (Sym (Lit (CHR ''P''))) (Cat (Grp (Rep Digit 1 None)) Eol))"

definition RE_NUMERIC :: rx where
  "RE_NUMERIC = Cat Bol (Cat (Rep Digit 1 None) Eol)"

subsection \<open>extract_duct_no\<close>

text \<open>
  \<^verbatim>\<open>
  def extract_duct_no(du_code: str):
      if not isinstance(du_code, str):
          return None
      core = du_code.split("(")[0].strip()
      core_u = core.upper()  # handle x01/hx01 etc.
      m = RE_DUCT_NO.search(core_u)
      return m.group(1) if m else None
  \<close>
  \<^verbatim>\<open>split\<close> never returns an empty list, so index 0 is in range; the pattern has one
  group, so \<^verbatim>\<open>group(1)\<close> is the first captured text.
\<close>

definition extract_duct_no :: "cell \<Rightarrow> cell" where
  "extract_duct_no du_code =
     (case du_code of
        Str t \<Rightarrow>
          (let core = strip (split_on (CHR ''('') t ! 0);
               core_u = upper core
           in case re_search RE_DUCT_NO core_u of
                Some gs \<Rightarrow> Str (gs ! 0)
              | None \<Rightarrow> PyNone)
      | _ \<Rightarrow> PyNone)"

text \<open>
  The same function in the words of the specification. The text after the 3-digit
  group is the letter P and 2 digits, or 1 to 3 capital letters and 2 to 3 digits, or
  exactly 3 digits; the match ends the text, and the leftmost one is reported.
\<close>

definition duct_suffix :: "string \<Rightarrow> bool" where
  "duct_suffix t =
     ((length t = 3 \<and> take 1 t = ''P'' \<and> list_all is_digit (drop 1 t))
      \<or> (\<exists>k \<in> {1, 2, 3}. \<exists>j \<in> {2, 3}.
            length t = k + j \<and> list_all is_upper_AZ (take k t) \<and> list_all is_digit (drop k t))
      \<or> (length t = 3 \<and> list_all is_digit t))"

definition duct_tail :: "string \<Rightarrow> bool" where
  "duct_tail s = (3 \<le> length s \<and> list_all is_digit (take 3 s) \<and> duct_suffix (drop 3 s))"

fun spec_duct_search :: "string \<Rightarrow> string option" where
  "spec_duct_search [] = None"
| "spec_duct_search (c # cs) =
     (if duct_tail (c # cs) then Some (take 3 (c # cs)) else spec_duct_search cs)"

definition spec_extract_duct_no :: "cell \<Rightarrow> cell" where
  "spec_extract_duct_no code =
     (case code of
        Str t \<Rightarrow>
          (case spec_duct_search (upper (strip (takeWhile (\<lambda>c. c \<noteq> CHR ''('') t))) of
             Some d \<Rightarrow> Str d
           | None \<Rightarrow> PyNone)
      | _ \<Rightarrow> PyNone)"

text \<open>
  Two notions for reasoning about \<^verbatim>\<open>$\<close>: a text that ends with a newline, and a
  rest of the text at which \<^verbatim>\<open>$\<close> matches.
\<close>

definition ends_nl :: "string \<Rightarrow> bool" where
  "ends_nl s = (s \<noteq> [] \<and> last s = CHR 0x0A)"

definition at_end :: "string \<Rightarrow> bool" where
  "at_end r = (r = [] \<or> r = [CHR 0x0A])"

subsection \<open>detect_duct_prefix_for_block and build_duct_key_column\<close>

text \<open>
  \<^verbatim>\<open>
  def detect_duct_prefix_for_block(group_df: pd.DataFrame) -> str | None:
      if "DU Description" not in group_df.columns:
          return None
      U = group_df["DU Description"].dropna().astype(str).str.upper()
      if U.str.contains(RE_AB_CODE).any():
          return "AB"
      if U.str.contains(RE_GB_CODE).any():
          return "GB"
      is_panel = U.str.contains(RE_PANEL_TAG)
      if (is_panel & U.str.contains("AB")).any():
          return "AB"
      if (is_panel & U.str.contains("GB")).any():
          return "GB"
      return None
  \<close>
  The function reads one column of the group, so the model takes that column: the
  DU Description of every row of the group (the column is a required one, so the first
  test never fires). \<^verbatim>\<open>str.contains\<close> is \<^verbatim>\<open>re.search\<close> on every element.
\<close>

definition str_contains :: "rx \<Rightarrow> string \<Rightarrow> bool" where
  "str_contains pat u = (re_search pat u \<noteq> None)"

definition detect_duct_prefix_for_block :: "cell list \<Rightarrow> cell" where
  "detect_duct_prefix_for_block du_description =
     (let U = map (\<lambda>c. upper (astype_str c)) (filter notna du_description) in
      if list_ex (str_contains RE_AB_CODE) U then Str ''AB''
      else if list_ex (str_contains RE_GB_CODE) U then Str ''GB''
      else let is_panel = str_contains RE_PANEL_TAG in
        if list_ex (\<lambda>u. is_panel u \<and> str_contains (lits ''AB'') u) U then Str ''AB''
        else if list_ex (\<lambda>u. is_panel u \<and> str_contains (lits ''GB'') u) U then Str ''GB''
        else PyNone)"

text \<open>
  \<^verbatim>\<open>
  def build_duct_key_column(df: pd.DataFrame) -> pd.Series:
      if "Duct No" not in df.columns:
          return pd.Series([None] * len(df), index=df.index)
      prefix_by_duct = (
          df.groupby("Duct No", dropna=True, as_index=True)
            .apply(detect_duct_prefix_for_block)
      )
      prefix_series = df["Duct No"].map(prefix_by_duct)
      duct_str = df["Duct No"].astype(str)
      duct_key = np.where(prefix_series.notna(), prefix_series.fillna("") + duct_str, duct_str)
      return pd.Series(duct_key, index=df.index)
  \<close>
  The frame is given by the two columns the function reads, (Duct No, DU Description)
  for every row; its only caller has set the Duct No column just before, so the first
  test never fires. \<^verbatim>\<open>prefix_by_duct\<close> has one entry for every Duct No that is not null;
  a Duct No without an entry, or with the entry \<^verbatim>\<open>None\<close>, maps to a missing value.

  When no group returns a prefix, and when there is no group at all, \<^verbatim>\<open>apply\<close> returns an
  empty data frame in place of a series, and \<^verbatim>\<open>Series.map\<close> on line 100 raises
  \<^verbatim>\<open>ValueError("Data must be 1-dimensional ...")\<close>: the key column is built only for a
  table in which some duct has a prefix.
\<close>

datatype error =
    ValueError "string list"   \<comment> \<open>\<^verbatim>\<open>ValueError(f"Missing columns: {missing}")\<close>\<close>
  | ValueError_1d              \<comment> \<open>the \<^verbatim>\<open>ValueError\<close> of \<^verbatim>\<open>Series.map\<close> on line 100\<close>
  | CastError                  \<comment> \<open>the cast to \<^verbatim>\<open>Int64\<close> raises: a number beyond 64 bits\<close>

definition build_duct_key_column :: "(cell \<times> cell) list \<Rightarrow> error + cell list" where
  "build_duct_key_column df =
     (let duct_no = map fst df;
          prefix_by_duct =
            map (\<lambda>d. (d, detect_duct_prefix_for_block
                            (map snd (filter (\<lambda>r. fst r = Str d) df))))
                (remdups (concat (map (\<lambda>c. case c of Str d \<Rightarrow> [d] | _ \<Rightarrow> []) duct_no)))
      in if list_all (\<lambda>(d, p). \<not> notna p) prefix_by_duct then Inl ValueError_1d
         else
           let prefix_series =
                 map (\<lambda>c. case c of
                             Str d \<Rightarrow> (case map_of prefix_by_duct d of Some p \<Rightarrow> p | None \<Rightarrow> NaN)
                           | _ \<Rightarrow> NaN)
                     duct_no;
               duct_str = map astype_str duct_no
           in Inr (map (\<lambda>(p, d). if notna p then Str (astype_str p @ d) else Str d)
                     (zip prefix_series duct_str)))"

subsection \<open>load_uploaded_excels\<close>

text \<open>
  A sheet as \<^verbatim>\<open>read_excel(dtype=str)\<close> returns it: the column names and the rows, every
  cell a text or \<^verbatim>\<open>NaN\<close>. An uploaded file has a name, or none, and either reads as its
  sheets in order or makes \<^verbatim>\<open>read_excel\<close> raise an exception with a message.
\<close>

type_synonym sheet = "string list \<times> cell list list"

datatype uploaded_file =
  UploadedFile (file_name: "string option") (read_excel: "string + sheet list")

definition REQUIRED_COLS :: "string list" where
  "REQUIRED_COLS =
     [''Vendor Name'', ''PO No'', ''Package Code of Description'', ''DU Code'',
      ''DU Description'', ''Total Weight'', ''Modified On'', ''Package Code of MR'',
      ''Mark No'']"

text \<open>
  A row of the unified table after \<^verbatim>\<open>load_uploaded_excels\<close>. The weight is a number as
  pandas holds it in the column (a 64-bit integer or float); its type is left open.
\<close>

record 'w row =
  Vendor_Name :: cell
  PO_No :: cell
  Package_Code_of_Description :: cell
  DU_Code :: cell
  DU_Description :: cell
  Total_Weight :: 'w
  Modified_On :: "int option"
  Package_Code_of_MR :: cell
  Mark_No :: cell
  Duct_No :: cell
  Unit_No :: cell
  WBS_Code :: cell
  Duct_Key :: cell

text \<open>\<^verbatim>\<open>DataFrame.empty\<close>: no column or no row.\<close>

definition df_empty :: "sheet \<Rightarrow> bool" where
  "df_empty df = (fst df = [] \<or> snd df = [])"

text \<open>\<^verbatim>\<open>getattr(uf, "name", "uploaded.xlsx")\<close>\<close>

definition getattr_name :: "uploaded_file \<Rightarrow> string" where
  "getattr_name uf = (case file_name uf of Some n \<Rightarrow> n | None \<Rightarrow> ''uploaded.xlsx'')"

text \<open>One round of the loop over the files, on \<^verbatim>\<open>(all_rows, errors)\<close>.\<close>

definition read_file :: "sheet list \<times> (string \<times> string) list \<Rightarrow> uploaded_file
                           \<Rightarrow> sheet list \<times> (string \<times> string) list" where
  "read_file acc uf =
     (case acc of (all_rows, errors) \<Rightarrow>
        (case read_excel uf of
           Inr xls \<Rightarrow> (all_rows @ filter (\<lambda>df. \<not> df_empty df) xls, errors)
         | Inl e \<Rightarrow> (all_rows, errors @ [(getattr_name uf, e)])))"

text \<open>
  \<^verbatim>\<open>pd.concat(all_rows, ignore_index=True)\<close> and the trimming of the column names: the
  columns of the unified table, and its rows as records from trimmed column name to
  cell. A column that a sheet does not have reads as \<^verbatim>\<open>NaN\<close> in the rows of that sheet.
  (Column names are taken to be texts, distinct after trimming.)
\<close>

definition big_columns :: "sheet list \<Rightarrow> string list" where
  "big_columns all_rows = remdups (map strip (concat (map fst all_rows)))"

definition big_records :: "sheet list \<Rightarrow> (string \<times> cell) list list" where
  "big_records all_rows =
     concat (map (\<lambda>df. map (\<lambda>r. zip (map strip (fst df)) r) (snd df)) all_rows)"

definition col :: "(string \<times> cell) list \<Rightarrow> string \<Rightarrow> cell" where
  "col r c = (case map_of r c of Some v \<Rightarrow> v | None \<Rightarrow> NaN)"

text \<open>
  \<^verbatim>\<open>pd.to_numeric(column, errors="coerce")\<close> and \<^verbatim>\<open>pd.to_datetime(column, errors="coerce")\<close>.
  How pandas reads a number or a date out of a text is outside the program, and it
  depends on the other cells of the column (they decide between integers and floats,
  and the format of the dates). So both readers are parameters: \<open>reader column i\<close> is what
  the text at position \<open>i\<close> of the column reads as, \<open>None\<close> when it cannot be read. A
  missing value stays missing. A date is its time stamp.
\<close>

definition coerce :: "(cell list \<Rightarrow> nat \<Rightarrow> 'a option) \<Rightarrow> cell list \<Rightarrow> 'a option list" where
  "coerce reader column =
     map (\<lambda>(i, c). case c of Str s \<Rightarrow> reader column i | _ \<Rightarrow> None) (enumerate 0 column)"

text \<open>\<^verbatim>\<open>fillna(v)\<close> on the result.\<close>

definition fillna :: "'a \<Rightarrow> 'a option list \<Rightarrow> 'a list" where
  "fillna v xs = map (\<lambda>x. case x of Some a \<Rightarrow> a | None \<Rightarrow> v) xs"

text \<open>
  The derived columns, lines 143 to 150 of the program. Line 145 raises when
  \<^const>\<open>build_duct_key_column\<close> does.
\<close>

definition derive :: "(cell list \<Rightarrow> nat \<Rightarrow> 'w option) \<Rightarrow> (cell list \<Rightarrow> nat \<Rightarrow> int option)
                        \<Rightarrow> (string \<times> cell) list list \<Rightarrow> error + ('w::zero) row list" where
  "derive to_numeric to_datetime big =
     (let duct_no = map (\<lambda>r. extract_duct_no (col r ''DU Code'')) big;
          unit_wbs = map (\<lambda>r. extract_unit_wbs (col r ''Package Code of MR'')) big
      in case build_duct_key_column (zip duct_no (map (\<lambda>r. col r ''DU Description'') big)) of
           Inl e \<Rightarrow> Inl e
         | Inr duct_key \<Rightarrow>
             let total_weight =
                   fillna 0 (coerce to_numeric (map (\<lambda>r. col r ''Total Weight'') big));
                 modified_on = coerce to_datetime (map (\<lambda>r. col r ''Modified On'') big)
             in Inr (map (\<lambda>(r, dn, uw, dk, tw, mo).
                       \<lparr> Vendor_Name = col r ''Vendor Name'',
                         PO_No = col r ''PO No'',
                         Package_Code_of_Description = col r ''Package Code of Description'',
                         DU_Code = col r ''DU Code'',
                         DU_Description = col r ''DU Description'',
                         Total_Weight = tw,
                         Modified_On = mo,
                         Package_Code_of_MR = col r ''Package Code of MR'',
                         Mark_No = col r ''Mark No'',
                         Duct_No = dn,
                         Unit_No = fst uw,
                         WBS_Code = snd uw,
                         Duct_Key = dk \<rparr>)
                    (zip big (zip duct_no (zip unit_wbs (zip duct_key
                       (zip total_weight modified_on)))))))"

text \<open>
  \<^verbatim>\<open>
  def load_uploaded_excels(files):
      all_rows, errors = [], []
      for uf in files:
          try:
              xls = pd.read_excel(uf, sheet_name=None, dtype=str)
              for _, _df in xls.items():
                  if _df is not None and not _df.empty:
                      all_rows.append(_df)
          except Exception as e:
              errors.append((getattr(uf, "name", "uploaded.xlsx"), str(e)))
      if not all_rows:
          return pd.DataFrame(), errors
      big = pd.concat(all_rows, ignore_index=True)
      big.columns = [c.strip() for c in big.columns]
      missing = [c for c in REQUIRED_COLS if c not in big.columns]
      if missing:
          raise ValueError(f"Missing columns: {missing}")
      ... the derived columns ...
      return big, errors
  \<close>
\<close>

definition load_uploaded_excels ::
  "(cell list \<Rightarrow> nat \<Rightarrow> 'w option) \<Rightarrow> (cell list \<Rightarrow> nat \<Rightarrow> int option) \<Rightarrow> uploaded_file list
     \<Rightarrow> error + (('w::zero) row list \<times> (string \<times> string) list)" where
  "load_uploaded_excels to_numeric to_datetime files =
     (case foldl read_file ([], []) files of (all_rows, errors) \<Rightarrow>
        if all_rows = [] then Inr ([], errors)
        else
          let missing = filter (\<lambda>c. c \<notin> set (big_columns all_rows)) REQUIRED_COLS in
          if missing \<noteq> [] then Inl (ValueError missing)
          else case derive to_numeric to_datetime (big_records all_rows) of
                 Inl e \<Rightarrow> Inl e
               | Inr big \<Rightarrow> Inr (big, errors))"

text \<open>
  The caller of the load:
  \<^verbatim>\<open>
  try:
      big, errors = load_uploaded_excels(uploaded_files)
  except ValueError as ve:
      st.error(str(ve))
      st.stop()
  if errors:
      with st.sidebar.expander("Files Skipped / Errors", expanded=False):
          for fname, e in errors:
              st.write(f"**{fname}** - {e}")
  \<close>
  The files that the page lists as skipped: the collected list when the load returns,
  and none when it raises, since the run stops at the message of the exception.
\<close>

definition files_skipped ::
  "error + ('w row list \<times> (string \<times> string) list) \<Rightarrow> (string \<times> string) list" where
  "files_skipped loaded = (case loaded of Inr (big, errors) \<Rightarrow> errors | Inl e \<Rightarrow> [])"

subsection \<open>summarize_by_duct_vendor_po\<close>

text \<open>
  The position of a text cell in an ascending sort with missing values last, and the
  value a group-by sees: texts compare as Python compares them, code point by code
  point, and every missing value is the same key.
\<close>

definition null_last :: "cell \<Rightarrow> nat \<times> string" where
  "null_last c = (case c of Str s \<Rightarrow> (0, s) | _ \<Rightarrow> (1, []))"








subsection \<open>build_master_sheet\<close>

text \<open>The number a text of digits denotes, as \<^verbatim>\<open>int\<close> reads it.\<close>

definition digit_val :: "char \<Rightarrow> nat" where
  "digit_val c = of_char c - 48"

definition int_of_digits :: "string \<Rightarrow> nat" where
  "int_of_digits s = foldl (\<lambda>n c. 10 * n + digit_val c) 0 s"

text \<open>
  \<^verbatim>\<open>
  def build_master_sheet(df: pd.DataFrame) -> pd.DataFrame:
      d = df.copy()
      d = d[d.get("Duct Key").notna() & d.get("Duct No").notna()].copy()
      mn = d["Mark No"].astype(str).str.strip().str.upper()
      panel_num = mn.str.extract(RE_PANEL_NO)[0].astype("Int64")
      is_panel = panel_num.notna()
      is_numeric = mn.str.match(RE_NUMERIC)
      d["__grp__"]  = np.select([is_panel, is_numeric], [0, 1], default=2)
      d["__ord1__"] = panel_num.fillna(10**9)
      d["__ord2__"] = pd.to_numeric(mn.where(is_numeric), errors="coerce").fillna(10**9)
      d = d.sort_values(
          by=["Duct Key", "Unit No", "__grp__", "__ord1__", "__ord2__", "PO No", "DU Code"],
          na_position="last"
      ).drop(columns=["__grp__", "__ord1__", "__ord2__"], errors="ignore")
      ... choice and renaming of the output columns, format of the dates ...
  \<close>
  The model returns the rows in the order of the master sheet. \<^verbatim>\<open>str.extract\<close> is
  \<^verbatim>\<open>re.search\<close> and \<^verbatim>\<open>str.match\<close> is \<^verbatim>\<open>re.match\<close> on every element. The cast to
  \<^verbatim>\<open>Int64\<close> reads the digits with \<^verbatim>\<open>int\<close> and raises on a panel number above the largest
  64-bit integer, 2^63 - 1. The numeric value of an all-digit mark is read by
  \<^verbatim>\<open>pd.to_numeric\<close>, the reader that is a parameter of the load: it holds the column
  as floats as soon as one mark of the table is not numeric.
\<close>

definition mark :: "'w row \<Rightarrow> string" where
  "mark r = upper (strip (astype_str (Mark_No r)))"

definition panel_num :: "'w row \<Rightarrow> nat option" where
  "panel_num r =
     (case re_search RE_PANEL_NO (mark r) of
        Some gs \<Rightarrow> Some (int_of_digits (gs ! 0))
      | None \<Rightarrow> None)"

definition is_numeric :: "'w row \<Rightarrow> bool" where
  "is_numeric r = (re_match RE_NUMERIC (mark r) \<noteq> None)"

definition grp :: "'w row \<Rightarrow> nat" where
  "grp r = (if panel_num r \<noteq> None then 0 else if is_numeric r then 1 else 2)"

definition ord1 :: "'w row \<Rightarrow> nat" where
  "ord1 r = (case panel_num r of Some n \<Rightarrow> n | None \<Rightarrow> 1000000000)"

definition ord2 :: "(cell list \<Rightarrow> nat \<Rightarrow> 'n option) \<Rightarrow> 'w row list \<Rightarrow> ('n::numeral) list" where
  "ord2 to_numeric d =
     fillna 1000000000
       (coerce to_numeric (map (\<lambda>r. if is_numeric r then Str (mark r) else NaN) d))"

definition master_filter :: "'w row list \<Rightarrow> 'w row list" where
  "master_filter df = filter (\<lambda>r. notna (Duct_Key r) \<and> notna (Duct_No r)) df"

definition build_master_sheet ::
  "(cell list \<Rightarrow> nat \<Rightarrow> ('n::{numeral,linorder}) option) \<Rightarrow> 'w row list
     \<Rightarrow> error + 'w row list" where
  "build_master_sheet to_numeric df =
     (let d = master_filter df in
      if list_ex (\<lambda>r. case panel_num r of Some n \<Rightarrow> 9223372036854775807 < n | None \<Rightarrow> False) d
      then Inl CastError
      else Inr (map fst
                  (sort_key
                     (\<lambda>(r, o2). (null_last (Duct_Key r), null_last (Unit_No r), grp r, ord1 r,
                                 o2,
                                 null_last (PO_No r), null_last (DU_Code r)))
                     (zip d (ord2 to_numeric d)))))"
text \<open>
  What the loop over the files collects, said directly: the sheets with data of the
  files that can be read, and the name and message of every file that cannot.
\<close>

definition usable_sheets :: "uploaded_file list \<Rightarrow> sheet list" where
  "usable_sheets files =
     concat (map (\<lambda>uf. case read_excel uf of
                          Inr xls \<Rightarrow> filter (\<lambda>df. \<not> df_empty df) xls
                        | Inl e \<Rightarrow> []) files)"

definition read_errors :: "uploaded_file list \<Rightarrow> (string \<times> string) list" where
  "read_errors files =
     concat (map (\<lambda>uf. case read_excel uf of
                          Inr xls \<Rightarrow> []
                        | Inl e \<Rightarrow> [(getattr_name uf, e)]) files)"

definition readable :: "uploaded_file \<Rightarrow> bool" where
  "readable uf = (case read_excel uf of Inr xls \<Rightarrow> True | Inl e \<Rightarrow> False)"

text \<open>
  The unified table, said directly: one row for every row of every sheet with data, in
  the order of the files, the sheets and the rows. The cell of a row under a column
  name is the cell below the header that is this name once trimmed, and a missing
  value when the sheet has no such header.
\<close>

definition sheet_cell :: "sheet \<Rightarrow> cell list \<Rightarrow> string \<Rightarrow> cell" where
  "sheet_cell df r c =
     (case find (\<lambda>hv. strip (fst hv) = c) (zip (fst df) r) of
        Some hv \<Rightarrow> snd hv
      | None \<Rightarrow> NaN)"

definition table_column :: "uploaded_file list \<Rightarrow> string \<Rightarrow> cell list" where
  "table_column files c =
     concat (map (\<lambda>df. map (\<lambda>r. sheet_cell df r c) (snd df)) (usable_sheets files))"

text \<open>The columns that the load copies as they are, with their fields in a row.\<close>

definition text_fields :: "(string \<times> ('w row \<Rightarrow> cell)) list" where
  "text_fields =
     [(''Vendor Name'', Vendor_Name), (''PO No'', PO_No),
      (''Package Code of Description'', Package_Code_of_Description),
      (''DU Code'', DU_Code), (''DU Description'', DU_Description),
      (''Package Code of MR'', Package_Code_of_MR), (''Mark No'', Mark_No)]"

text \<open>
  The prefix rules in words. A code is the tag, white space or none, and 3 digits,
  standing as a word of its own: no letter, digit or underscore right before the tag or
  right after the digits. The second kind of evidence is a description that contains
  PANEL (or PANELASSY) and the tag anywhere.
\<close>

definition code_here :: "string \<Rightarrow> char option \<Rightarrow> string \<Rightarrow> bool" where
  "code_here tag prev s =
     (\<not> word_before prev \<and> take (length tag) s = tag \<and>
      (let t = dropWhile is_space (drop (length tag) s)
       in 3 \<le> length t \<and> list_all is_digit (take 3 t) \<and> \<not> word_at (drop 3 t)))"

fun has_code_from :: "string \<Rightarrow> char option \<Rightarrow> string \<Rightarrow> bool" where
  "has_code_from tag prev [] = False"
| "has_code_from tag prev (c # cs) =
     (code_here tag prev (c # cs) \<or> has_code_from tag (Some c) cs)"

definition has_code :: "string \<Rightarrow> string \<Rightarrow> bool" where
  "has_code tag u = has_code_from tag None u"

fun contains :: "string \<Rightarrow> string \<Rightarrow> bool" where
  "contains x [] = (x = [])"
| "contains x (c # cs) = (take (length x) (c # cs) = x \<or> contains x cs)"

definition spec_prefix :: "cell list \<Rightarrow> cell" where
  "spec_prefix descriptions =
     (let U = concat (map (\<lambda>c. case c of Str s \<Rightarrow> [upper s] | _ \<Rightarrow> []) descriptions);
          panel = (\<lambda>u. contains ''PANEL'' u \<or> contains ''PANELASSY'' u)
      in if list_ex (has_code ''AB'') U then Str ''AB''
         else if list_ex (has_code ''GB'') U then Str ''GB''
         else if list_ex (\<lambda>u. panel u \<and> contains ''AB'' u) U then Str ''AB''
         else if list_ex (\<lambda>u. panel u \<and> contains ''GB'' u) U then Str ''GB''
         else PyNone)"

text \<open>The duct group of a Duct No, as the descriptions of its rows.\<close>

definition duct_group :: "(cell \<times> cell) list \<Rightarrow> string \<Rightarrow> cell list" where
  "duct_group df d = map snd (filter (\<lambda>r. fst r = Str d) df)"

text \<open>
  The first rule without the word boundaries, as a reader takes ``contains the tag plus
  optional white space plus exactly 3 digits anywhere'': the tag, white space or none,
  3 digits and no fourth digit, at any position of the text.
\<close>

definition loose_code_here :: "string \<Rightarrow> string \<Rightarrow> bool" where
  "loose_code_here tag s =
     (take (length tag) s = tag \<and>
      (let t = dropWhile is_space (drop (length tag) s)
       in 3 \<le> length t \<and> list_all is_digit (take 3 t)
          \<and> \<not> (4 \<le> length t \<and> is_digit (t ! 3))))"

fun loose_has_code :: "string \<Rightarrow> string \<Rightarrow> bool" where
  "loose_has_code tag [] = False"
| "loose_has_code tag (c # cs) = (loose_code_here tag (c # cs) \<or> loose_has_code tag cs)"

text \<open>
  Notions for the statements about the two reports. The rows a report keeps. The value
  of a key cell: its text, or the one missing value. An ascending order on cells with
  the missing values last: a text is before a text that is greater as Python compares
  them, and before every missing value. An ascending order by a list of keys: before by
  the first key, or the same there and in order by the other keys.
\<close>

definition kept :: "'w row list \<Rightarrow> 'w row list" where
  "kept df = filter (\<lambda>r. notna (Duct_No r) \<and> notna (Duct_Key r)) df"

definition key_text :: "cell \<Rightarrow> string option" where
  "key_text c = (case c of Str s \<Rightarrow> Some s | _ \<Rightarrow> None)"

fun before :: "cell \<Rightarrow> cell \<Rightarrow> bool" where
  "before (Str a) (Str b) = (a < b)"
| "before (Str a) _ = True"
| "before _ _ = False"

type_synonym 'a order_key = "('a \<Rightarrow> 'a \<Rightarrow> bool) \<times> ('a \<Rightarrow> 'a \<Rightarrow> bool)"

definition by_cell :: "('a \<Rightarrow> cell) \<Rightarrow> 'a order_key" where
  "by_cell f = (\<lambda>x y. before (f x) (f y), \<lambda>x y. key_text (f x) = key_text (f y))"

definition by_number :: "('a \<Rightarrow> nat) \<Rightarrow> 'a order_key" where
  "by_number f = (\<lambda>x y. f x < f y, \<lambda>x y. f x = f y)"

fun ascending :: "'a order_key list \<Rightarrow> 'a \<Rightarrow> 'a \<Rightarrow> bool" where
  "ascending [] x y = True"
| "ascending (k # keys) x y = (fst k x y \<or> snd k x y \<and> ascending keys x y)"







text \<open>
  The cells of a row of a sheet whose columns are the required ones, in the order of
  \<^const>\<open>REQUIRED_COLS\<close>, with a DU Code, a DU Description and a weight of choice.
\<close>

definition example_cells :: "string \<Rightarrow> string \<Rightarrow> cell \<Rightarrow> cell list" where
  "example_cells du_code du_description weight =
     [Str ''ACME'', Str ''PO-1'', Str ''PKG-7'', Str du_code, Str du_description, weight,
      NaN, Str ''U1-W2-X'', Str ''P2'']"

text \<open>
  The three groups of a mark, in words. The mark of a row is its Mark No trimmed and in
  upper case. A panel mark is P followed by digits, at least one, and nothing else; a
  numeric mark is digits, at least one, and nothing else; a row without Mark No is in
  the third group. The number of a mark is the number after P, the number itself, or
  the sentinel; a text of digits denotes its number in base ten.
\<close>

definition mark_text :: "'w row \<Rightarrow> string option" where
  "mark_text r = (case Mark_No r of Str s \<Rightarrow> Some (upper (strip s)) | _ \<Rightarrow> None)"

definition is_panel_mark :: "string \<Rightarrow> bool" where
  "is_panel_mark m = (take 1 m = ''P'' \<and> drop 1 m \<noteq> [] \<and> list_all is_digit (drop 1 m))"

definition is_numeric_mark :: "string \<Rightarrow> bool" where
  "is_numeric_mark m = (m \<noteq> [] \<and> list_all is_digit m)"

definition digit_of :: "char \<Rightarrow> nat" where
  "digit_of c = length (takeWhile (\<lambda>d. d \<noteq> c) ''0123456789'')"

fun number_backwards :: "string \<Rightarrow> nat" where
  "number_backwards [] = 0"
| "number_backwards (c # cs) = digit_of c + 10 * number_backwards cs"

definition number_of :: "string \<Rightarrow> nat" where
  "number_of s = number_backwards (rev s)"

definition mark_group :: "string option \<Rightarrow> nat" where
  "mark_group mo =
     (case mo of
        Some m \<Rightarrow> if is_panel_mark m then 0 else if is_numeric_mark m then 1 else 2
      | None \<Rightarrow> 2)"

definition mark_number :: "string option \<Rightarrow> nat" where
  "mark_number mo =
     (case mo of
        Some m \<Rightarrow> if is_panel_mark m then number_of (drop 1 m)
                  else if is_numeric_mark m then number_of m
                  else 1000000000
      | None \<Rightarrow> 1000000000)"

definition master_order :: "'w row order_key list" where
  "master_order =
     [by_cell Duct_Key, by_cell Unit_No, by_number (\<lambda>r. mark_group (mark_text r)),
      by_number (\<lambda>r. mark_number (mark_text r)), by_cell PO_No, by_cell DU_Code]"

text \<open>A panel number that the 64-bit integer column cannot hold.\<close>

definition panel_overflow :: "'w row \<Rightarrow> bool" where
  "panel_overflow r =
     (case mark_text r of
        Some m \<Rightarrow> is_panel_mark m \<and> 9223372036854775807 < number_of (drop 1 m)
      | None \<Rightarrow> False)"

text \<open>
  The numeric marks of the rows that the master sheet keeps, as a column (the other
  rows have no value in it), and a reader of numbers that is exact on a column: a text
  of digits reads as the number it denotes.
\<close>

definition numeric_marks :: "'w row list \<Rightarrow> cell list" where
  "numeric_marks df =
     map (\<lambda>r. case mark_text r of
                 Some m \<Rightarrow> if is_numeric_mark m then Str m else NaN
               | None \<Rightarrow> NaN)
         (kept df)"

definition reads_exactly ::
  "(cell list \<Rightarrow> nat \<Rightarrow> ('n::semiring_1) option) \<Rightarrow> cell list \<Rightarrow> bool" where
  "reads_exactly to_numeric column =
     list_all (\<lambda>ic. case snd ic of
                      Str s \<Rightarrow> to_numeric column (fst ic) = Some (of_nat (number_of s))
                    | _ \<Rightarrow> True)
       (enumerate 0 column)"




section \<open>Properties\<close>

subsection \<open>Text helpers\<close>

lemma split_on_not_Nil: "split_on sep s \<noteq> []"
  by (induction s) (auto split: list.splits)

lemma extract_unit_wbs_Str:
  "extract_unit_wbs (Str t) =
     (case segments t of
        seg0 # seg1 # _ \<Rightarrow> (Str seg0, Str (seg0 @ ''-'' @ seg1))
      | [seg0] \<Rightarrow> (if seg0 = [] then (PyNone, PyNone) else (Str seg0, PyNone))
      | [] \<Rightarrow> (PyNone, PyNone))"
proof (cases "segments t")
  case Nil
  then show ?thesis by (simp add: segments_def split_on_not_Nil)
next
  case (Cons a as)
  then show ?thesis
    by (cases as) (simp_all add: extract_unit_wbs_def segments_def Let_def)
qed

lemmas text_eval =
  segments_def strip_def strip_class_def is_space_def is_digit_def is_upper_AZ_def
  is_lower_az_def is_word_def upper_def upper_char_def

subsection \<open>Unit and WBS extraction\<close>

text \<open>
  C6. For every input, \<^const>\<open>extract_unit_wbs\<close> returns (null, null) on a value that
  is not a text; otherwise it trims white space, then hyphens at both ends, splits on
  the hyphen and returns (segment 0, segment 0 - segment 1) for two segments or more,
  (segment 0, null) for exactly one non-empty segment, and (null, null) otherwise.
  The three examples of the specification are instances.
\<close>

theorem extract_unit_wbs_spec:
  "extract_unit_wbs code = spec_unit_wbs code
   \<and> extract_unit_wbs NaN = (PyNone, PyNone)
   \<and> extract_unit_wbs PyNone = (PyNone, PyNone)
   \<and> extract_unit_wbs (Str ''U1-WBS20-XYZ'') = (Str ''U1'', Str ''U1-WBS20'')
   \<and> extract_unit_wbs (Str ''U1'') = (Str ''U1'', PyNone)
   \<and> extract_unit_wbs (Str []) = (PyNone, PyNone)"
proof -
  have "extract_unit_wbs code = spec_unit_wbs code"
  proof (cases code)
    case (Str t)
    then show ?thesis by (simp add: extract_unit_wbs_Str spec_unit_wbs_def)
  qed (simp_all add: extract_unit_wbs_def spec_unit_wbs_def)
  moreover have "extract_unit_wbs NaN = (PyNone, PyNone)"
    and "extract_unit_wbs PyNone = (PyNone, PyNone)"
    by (simp_all add: extract_unit_wbs_def)
  moreover have "extract_unit_wbs (Str ''U1-WBS20-XYZ'') = (Str ''U1'', Str ''U1-WBS20'')"
    by (simp add: extract_unit_wbs_def text_eval)
  moreover have "extract_unit_wbs (Str ''U1'') = (Str ''U1'', PyNone)"
    by (simp add: extract_unit_wbs_def text_eval)
  moreover have "extract_unit_wbs (Str []) = (PyNone, PyNone)"
    by (simp add: extract_unit_wbs_def text_eval)
  ultimately show ?thesis by simp
qed

theorem extract_unit_wbs_spec_witness:
  "extract_unit_wbs (Str '' -U7-W3--X- '') = (Str ''U7'', Str ''U7-W3'')
   \<and> spec_unit_wbs (Str '' -U7-W3--X- '') = (Str ''U7'', Str ''U7-W3'')"
  using extract_unit_wbs_spec [of "Str '' -U7-W3--X- ''"]
  by (simp add: spec_unit_wbs_def text_eval)

text \<open>
  C10. Whatever the input, a non-null WBS Code comes with a non-null Unit No and is the
  Unit No, a hyphen and the second hyphen-separated segment; a null Unit No comes with
  a null WBS Code.
\<close>

theorem extract_unit_wbs_wbs_needs_unit:
  assumes "extract_unit_wbs code = (unit, wbs)"
  shows "(notna wbs \<longrightarrow>
            (\<exists>t u. code = Str t \<and> unit = Str u \<and> 2 \<le> length (segments t)
                   \<and> u = segments t ! 0 \<and> wbs = Str (u @ ''-'' @ segments t ! 1)))
         \<and> (\<not> notna unit \<longrightarrow> \<not> notna wbs)"
proof (cases code)
  case (Str t)
  with assms show ?thesis
    by (auto simp: extract_unit_wbs_Str split: list.splits if_splits)
qed (use assms in \<open>auto simp: extract_unit_wbs_def\<close>)

theorem extract_unit_wbs_wbs_needs_unit_witness:
  "extract_unit_wbs (Str ''U1-WBS20-XYZ'') = (Str ''U1'', Str ''U1-WBS20'')
   \<and> notna (Str ''U1-WBS20'')
   \<and> (\<exists>t u. Str ''U1-WBS20-XYZ'' = Str t \<and> Str ''U1'' = Str u \<and> 2 \<le> length (segments t)
            \<and> u = segments t ! 0 \<and> Str ''U1-WBS20'' = Str (u @ ''-'' @ segments t ! 1))"
proof -
  have h: "extract_unit_wbs (Str ''U1-WBS20-XYZ'') = (Str ''U1'', Str ''U1-WBS20'')"
    by (simp add: extract_unit_wbs_def text_eval)
  from extract_unit_wbs_wbs_needs_unit [OF h] h show ?thesis by simp
qed

subsection \<open>The matcher\<close>

text \<open>
  Greedy repetition reaches exactly the positions after k characters of the class, for
  every k between the bounds.
\<close>

lemma rep_run_iff:
  "(q, r) \<in> set (rep_run p m n prev s) \<longleftrightarrow>
     (\<exists>k. m \<le> k \<and> (case n of None \<Rightarrow> True | Some b \<Rightarrow> k \<le> b) \<and> k \<le> length s
          \<and> list_all p (take k s) \<and> r = drop k s
          \<and> q = (if k = 0 then prev else Some (s ! (k - 1))))"
proof (induction s arbitrary: m n prev)
  case Nil
  then show ?case by (auto split: option.splits)
next
  case (Cons c cs)
  show ?case
  proof
    assume "(q, r) \<in> set (rep_run p m n prev (c # cs))"
    then consider
      (more) "p c" "n \<noteq> Some 0"
        "(q, r) \<in> set (rep_run p (m - 1) (map_option (\<lambda>k. k - 1) n) (Some c) cs)"
      | (stop) "m = 0" "q = prev" "r = c # cs"
      by (auto split: if_splits)
    then show "\<exists>k. m \<le> k \<and> (case n of None \<Rightarrow> True | Some b \<Rightarrow> k \<le> b)
          \<and> k \<le> length (c # cs) \<and> list_all p (take k (c # cs)) \<and> r = drop k (c # cs)
          \<and> q = (if k = 0 then prev else Some ((c # cs) ! (k - 1)))"
    proof cases
      case more
      from more(3) obtain k where k: "m - 1 \<le> k"
        "(case map_option (\<lambda>k. k - 1) n of None \<Rightarrow> True | Some b \<Rightarrow> k \<le> b)"
        "k \<le> length cs" "list_all p (take k cs)" "r = drop k cs"
        "q = (if k = 0 then Some c else Some (cs ! (k - 1)))"
        unfolding Cons.IH by blast
      show ?thesis
        apply (rule exI[of _ "Suc k"])
        using k more(1,2) by (auto split: option.splits simp: nth_Cons')
    next
      case stop
      then show ?thesis by (intro exI[of _ 0]) (auto split: option.splits)
    qed
  next
    assume "\<exists>k. m \<le> k \<and> (case n of None \<Rightarrow> True | Some b \<Rightarrow> k \<le> b)
          \<and> k \<le> length (c # cs) \<and> list_all p (take k (c # cs)) \<and> r = drop k (c # cs)
          \<and> q = (if k = 0 then prev else Some ((c # cs) ! (k - 1)))"
    then obtain k where k: "m \<le> k" "(case n of None \<Rightarrow> True | Some b \<Rightarrow> k \<le> b)"
      "k \<le> length (c # cs)" "list_all p (take k (c # cs))" "r = drop k (c # cs)"
      "q = (if k = 0 then prev else Some ((c # cs) ! (k - 1)))"
      by blast
    show "(q, r) \<in> set (rep_run p m n prev (c # cs))"
    proof (cases k)
      case 0
      with k show ?thesis by auto
    next
      case (Suc k')
      have "(q, r) \<in> set (rep_run p (m - 1) (map_option (\<lambda>k. k - 1) n) (Some c) cs)"
        unfolding Cons.IH
        apply (rule exI[of _ k'])
        using k Suc by (auto split: option.splits simp: nth_Cons')
      moreover have "p c" "n \<noteq> Some 0" using k Suc by auto
      ultimately show ?thesis by auto
    qed
  qed
qed

lemma set_run_Cat: "set (run (Cat a b) st) = (\<Union>st' \<in> set (run a st). set (run b st'))"
  by simp

lemma in_run_Rep:
  "(q, r, g) \<in> set (run (Rep x m n) (prev, s, gs)) \<longleftrightarrow>
     g = gs \<and> (q, r) \<in> set (rep_run (in_cls x) m n prev s)"
  by auto

lemma in_run_Grp:
  "(q, r, g) \<in> set (run (Grp a) (prev, s, gs)) \<longleftrightarrow>
     (\<exists>g'. g = g' @ [take (length s - length r) s] \<and> (q, r, g') \<in> set (run a (prev, s, gs)))"
  by (auto simp: image_iff) force

lemma in_run_Eol:
  "st' \<in> set (run Eol (prev, s, gs)) \<longleftrightarrow> st' = (prev, s, gs) \<and> (s = [] \<or> s = [CHR 0x0A])"
  by auto

lemma in_run_Bol:
  "st' \<in> set (run Bol (prev, s, gs)) \<longleftrightarrow> st' = (prev, s, gs) \<and> prev = None"
  by auto

lemma in_run_WordB:
  "st' \<in> set (run WordB (prev, s, gs)) \<longleftrightarrow>
     st' = (prev, s, gs) \<and> word_before prev \<noteq> word_at s"
  by auto

lemma in_run_Sym:
  "(q, r, g) \<in> set (run (Sym x) (prev, s, gs)) \<longleftrightarrow>
     (\<exists>c. s = c # r \<and> in_cls x c \<and> q = Some c \<and> g = gs)"
  by (cases s) auto

lemmas in_run =
  in_run_Rep in_run_Grp in_run_Eol in_run_Bol in_run_WordB in_run_Sym rep_run_iff

text \<open>The first match decides what \<^const>\<open>match_at\<close> returns.\<close>

lemma match_at_None_iff: "match_at r prev s = None \<longleftrightarrow> run r (prev, s, []) = []"
  by (auto simp: match_at_def split: list.splits)

lemma match_at_SomeD:
  "match_at r prev s = Some gs \<Longrightarrow> \<exists>q t. (q, t, gs) \<in> set (run r (prev, s, []))"
  by (auto simp: match_at_def split: list.splits)

subsection \<open>The duct number pattern\<close>

lemma drop_not_nl:
  assumes "\<not> ends_nl s"
  shows "drop k s \<noteq> [CHR 0x0A]"
proof
  assume "drop k s = [CHR 0x0A]"
  then have "take k s @ [CHR 0x0A] = s"
    using append_take_drop_id [of k s] by simp
  then have "s \<noteq> []" and "last s = CHR 0x0A"
    using last_snoc [of "take k s" "CHR 0x0A"] by auto
  with assms show False by (simp add: ends_nl_def)
qed

lemma in_cls_eta:
  "in_cls Digit = is_digit" "in_cls UpperAZ = is_upper_AZ" "in_cls Space = is_space"
  by (rule ext, simp)+

lemma in_run_Cat:
  "st'' \<in> set (run (Cat a b) st) \<longleftrightarrow>
     (\<exists>q r g. (q, r, g) \<in> set (run a st) \<and> st'' \<in> set (run b (q, r, g)))"
  by auto

lemma in_run_Alt:
  "st' \<in> set (run (Alt a b) st) \<longleftrightarrow> st' \<in> set (run a st) \<or> st' \<in> set (run b st)"
  by auto

lemma rep_exact_iff:
  "(q, r) \<in> set (rep_run p n (Some n) prev s) \<longleftrightarrow>
     n \<le> length s \<and> list_all p (take n s) \<and> r = drop n s
     \<and> q = (if n = 0 then prev else Some (s ! (n - 1)))"
  by (auto simp: rep_run_iff)

lemma run_group3:
  "(q, r, g) \<in> set (run (Grp (Rep Digit 3 (Some 3))) (prev, s, [])) \<longleftrightarrow>
     3 \<le> length s \<and> list_all is_digit (take 3 s) \<and> r = drop 3 s \<and> g = [take 3 s]
     \<and> q = Some (s ! 2)"
  by (auto simp: in_run_Grp in_run_Rep rep_exact_iff in_cls_eta simp del: run.simps)

lemma alt1:
  "(q', r', g') \<in> set (run (Cat (Sym (Lit (CHR ''P''))) (Rep Digit 2 (Some 2))) (q, t, g)) \<longleftrightarrow>
    (\<exists>t1. t = CHR ''P'' # t1 \<and> 2 \<le> length t1 \<and> list_all is_digit (take 2 t1) \<and> r' = drop 2 t1 \<and> g' = g \<and> q' = Some (t1 ! 1))"
  by (auto simp: in_run_Cat in_run_Sym in_run_Rep rep_exact_iff in_cls_eta simp del: run.simps)

lemma alt3:
  "(q', r', g') \<in> set (run (Rep Digit 3 (Some 3)) (q, t, g)) \<longleftrightarrow>
    (3 \<le> length t \<and> list_all is_digit (take 3 t) \<and> r' = drop 3 t \<and> g' = g \<and> q' = Some (t ! 2))"
  by (auto simp: in_run_Rep rep_exact_iff in_cls_eta simp del: run.simps)

lemma rep_run_bounded_iff:
  "(q, r) \<in> set (rep_run p m (Some b) prev s) \<longleftrightarrow>
     (\<exists>k. m \<le> k \<and> k \<le> b \<and> k \<le> length s \<and> list_all p (take k s) \<and> r = drop k s
          \<and> q = (if k = 0 then prev else Some (s ! (k - 1))))"
  by (simp add: rep_run_iff)

lemma alt2:
  "(q', r', g') \<in> set (run (Cat (Rep UpperAZ 1 (Some 3)) (Rep Digit 2 (Some 3))) (q, t, g)) \<longleftrightarrow>
    (\<exists>k j. 1 \<le> k \<and> k \<le> 3 \<and> 2 \<le> j \<and> j \<le> 3 \<and> k + j \<le> length t \<and> list_all is_upper_AZ (take k t)
        \<and> list_all is_digit (take j (drop k t)) \<and> r' = drop (k + j) t \<and> g' = g \<and> q' = Some (t ! (k + j - 1)))"
  (is "?L \<longleftrightarrow> ?R")
proof
  assume ?L
  then obtain q1 r1 g1 where
    a: "(q1, r1, g1) \<in> set (run (Rep UpperAZ 1 (Some 3)) (q, t, g))" and
    b: "(q', r', g') \<in> set (run (Rep Digit 2 (Some 3)) (q1, r1, g1))"
    unfolding in_run_Cat by blast
  from a have g1: "g1 = g" and a': "(q1, r1) \<in> set (rep_run is_upper_AZ 1 (Some 3) q t)"
    unfolding in_run_Rep in_cls_eta by blast+
  from b have g: "g' = g1" and b': "(q', r') \<in> set (rep_run is_digit 2 (Some 3) q1 r1)"
    unfolding in_run_Rep in_cls_eta by blast+
  from a' obtain k where
    k: "1 \<le> k" "k \<le> 3" "k \<le> length t" "list_all is_upper_AZ (take k t)" "r1 = drop k t"
    unfolding rep_run_bounded_iff by blast
  from b' obtain j where
    j: "2 \<le> j" "j \<le> 3" "j \<le> length r1" "list_all is_digit (take j r1)" "r' = drop j r1"
       "q' = (if j = 0 then q1 else Some (r1 ! (j - 1)))"
    unfolding rep_run_bounded_iff by blast
  have 1: "k + j \<le> length t" using k(3,5) j(3) by simp
  have 2: "r' = drop (k + j) t" using j(5) k(5) by (simp add: add.commute)
  have 3: "q' = Some (t ! (k + j - 1))"
  proof -
    have "r1 ! (j - 1) = t ! (k + (j - 1))" using k(3,5) by simp
    moreover have "k + (j - 1) = k + j - 1" using j(1) by simp
    moreover have "j \<noteq> 0" using j(1) by simp
    ultimately show ?thesis using j(6) by simp
  qed
  have 4: "list_all is_digit (take j (drop k t))" using j(4) k(5) by simp
  have 5: "g' = g" using g g1 by simp
  show ?R
    apply (rule exI[of _ k], rule exI[of _ j])
    using k(1,2,4) j(1,2) 1 2 3 4 5 by simp
next
  assume ?R
  then obtain k j where
    h: "1 \<le> k" "k \<le> 3" "2 \<le> j" "j \<le> 3" "k + j \<le> length t" "list_all is_upper_AZ (take k t)"
       "list_all is_digit (take j (drop k t))" "r' = drop (k + j) t" "g' = g"
       "q' = Some (t ! (k + j - 1))"
    by blast
  have "(Some (t ! (k - 1)), drop k t) \<in> set (rep_run is_upper_AZ 1 (Some 3) q t)"
    unfolding rep_run_bounded_iff
    apply (rule exI[of _ k])
    using h(1,2,5,6) by simp
  then have 1: "(Some (t ! (k - 1)), drop k t, g) \<in> set (run (Rep UpperAZ 1 (Some 3)) (q, t, g))"
    unfolding in_run_Rep in_cls_eta by simp
  have e: "drop k t ! (j - 1) = t ! (k + j - 1)" using h(3,5) by simp
  have "(q', r') \<in> set (rep_run is_digit 2 (Some 3) (Some (t ! (k - 1))) (drop k t))"
    unfolding rep_run_bounded_iff
    apply (rule exI[of _ j])
    using h(3,4,5,7,8,10) e by (simp add: add.commute)
  then have 2: "(q', r', g') \<in> set (run (Rep Digit 2 (Some 3)) (Some (t ! (k - 1)), drop k t, g))"
    unfolding in_run_Rep in_cls_eta using h(9) by simp
  show ?L
    unfolding in_run_Cat using 1 2 by blast
qed


lemma at_end_drop: "\<not> ends_nl t \<Longrightarrow> at_end (drop n t) \<longleftrightarrow> length t \<le> n"
  using drop_not_nl [of t n] by (simp add: at_end_def)

lemma alt1_end:
  assumes "\<not> ends_nl t"
  shows "(\<exists>q' r' g'. (q', r', g') \<in> set (run (Cat (Sym (Lit (CHR ''P''))) (Rep Digit 2 (Some 2))) (q, t, g))
             \<and> at_end r')
         \<longleftrightarrow> (length t = 3 \<and> take 1 t = ''P'' \<and> list_all is_digit (drop 1 t))"
  (is "?L \<longleftrightarrow> ?R")
proof
  assume ?L
  then obtain r' t1 where h: "t = CHR ''P'' # t1" "2 \<le> length t1" "list_all is_digit (take 2 t1)"
    "r' = drop 2 t1" "at_end r'"
    unfolding alt1 by blast
  have "r' = drop 3 t" using h(1,4) by simp
  then have "length t \<le> 3" using h(5) at_end_drop [OF assms, of 3] by simp
  then have "length t1 = 2" using h(1,2) by simp
  then show ?R using h(1,3) by simp
next
  assume r: ?R
  then obtain t1 where t: "t = CHR ''P'' # t1" by (cases t) auto
  have l: "length t1 = 2" using r t by simp
  have d: "list_all is_digit t1" using r t by simp
  have "(Some (t1 ! 1), drop 2 t1, g) \<in> set (run (Cat (Sym (Lit (CHR ''P''))) (Rep Digit 2 (Some 2))) (q, t, g))"
    unfolding alt1 using t l d by simp
  moreover have "at_end (drop 2 t1)" using l by (simp add: at_end_def)
  ultimately show ?L by blast
qed

lemma alt3_end:
  assumes "\<not> ends_nl t"
  shows "(\<exists>q' r' g'. (q', r', g') \<in> set (run (Rep Digit 3 (Some 3)) (q, t, g)) \<and> at_end r')
         \<longleftrightarrow> (length t = 3 \<and> list_all is_digit t)"
  (is "?L \<longleftrightarrow> ?R")
proof
  assume ?L
  then obtain r' where h: "3 \<le> length t" "list_all is_digit (take 3 t)" "r' = drop 3 t" "at_end r'"
    unfolding alt3 by blast
  have "length t \<le> 3" using h(3,4) at_end_drop [OF assms, of 3] by simp
  then show ?R using h(1,2) by simp
next
  assume r: ?R
  have "(Some (t ! 2), drop 3 t, g) \<in> set (run (Rep Digit 3 (Some 3)) (q, t, g))"
    unfolding alt3 using r by simp
  moreover have "at_end (drop 3 t)" using r by (simp add: at_end_def)
  ultimately show ?L by blast
qed

lemma alt2_end:
  assumes "\<not> ends_nl t"
  shows "(\<exists>q' r' g'. (q', r', g') \<in> set (run (Cat (Rep UpperAZ 1 (Some 3)) (Rep Digit 2 (Some 3))) (q, t, g))
            \<and> at_end r')
         \<longleftrightarrow> (\<exists>k \<in> {1, 2, 3}. \<exists>j \<in> {2, 3}.
               length t = k + j \<and> list_all is_upper_AZ (take k t) \<and> list_all is_digit (drop k t))"
  (is "?L \<longleftrightarrow> ?R")
proof
  assume ?L
  then obtain r' k j where h: "1 \<le> k" "k \<le> 3" "2 \<le> j" "j \<le> 3" "k + j \<le> length t"
    "list_all is_upper_AZ (take k t)" "list_all is_digit (take j (drop k t))"
    "r' = drop (k + j) t" "at_end r'"
    unfolding alt2 by blast
  have "length t \<le> k + j" using h(8,9) at_end_drop [OF assms, of "k + j"] by simp
  then have l: "length t = k + j" using h(5) by simp
  then have "take j (drop k t) = drop k t" by simp
  then have d: "list_all is_digit (drop k t)" using h(7) by simp
  have "k \<in> {1, 2, 3}" using h(1,2) by auto
  moreover have "j \<in> {2, 3}" using h(3,4) by auto
  ultimately show ?R using l d h(6) by blast
next
  assume ?R
  then obtain k j where h: "k \<in> {1, 2, 3}" "j \<in> {2, 3}" "length t = k + j"
    "list_all is_upper_AZ (take k t)" "list_all is_digit (drop k t)"
    by blast
  have k: "1 \<le> k" "k \<le> 3" using h(1) by auto
  have j: "2 \<le> j" "j \<le> 3" using h(2) by auto
  have "take j (drop k t) = drop k t" using h(3) by simp
  then have d: "list_all is_digit (take j (drop k t))" using h(5) by simp
  have "(Some (t ! (k + j - 1)), drop (k + j) t, g)
          \<in> set (run (Cat (Rep UpperAZ 1 (Some 3)) (Rep Digit 2 (Some 3))) (q, t, g))"
    unfolding alt2
    apply (rule exI[of _ k], rule exI[of _ j])
    using k j h(3,4) d by simp
  moreover have "at_end (drop (k + j) t)" using h(3) by (simp add: at_end_def)
  ultimately show ?L by blast
qed


lemma ends_nl_drop: "\<not> ends_nl s \<Longrightarrow> \<not> ends_nl (drop n s)"
  by (cases "n < length s") (auto simp: ends_nl_def)

lemma in_run_Cat_Eol:
  "(q', r', g') \<in> set (run (Cat a Eol) st) \<longleftrightarrow> (q', r', g') \<in> set (run a st) \<and> at_end r'"
  unfolding in_run_Cat in_run_Eol at_end_def by auto

lemma duct_run_iff:
  "(q', r', g') \<in> set (run RE_DUCT_NO (prev, s, [])) \<longleftrightarrow>
     3 \<le> length s \<and> list_all is_digit (take 3 s) \<and> g' = [take 3 s] \<and> at_end r' \<and>
     ((q', r', g') \<in> set (run (Cat (Sym (Lit (CHR ''P''))) (Rep Digit 2 (Some 2)))
                             (Some (s ! 2), drop 3 s, [take 3 s]))
      \<or> (q', r', g') \<in> set (run (Cat (Rep UpperAZ 1 (Some 3)) (Rep Digit 2 (Some 3)))
                             (Some (s ! 2), drop 3 s, [take 3 s]))
      \<or> (q', r', g') \<in> set (run (Rep Digit 3 (Some 3)) (Some (s ! 2), drop 3 s, [take 3 s])))"
  (is "?L \<longleftrightarrow> ?R")
proof
  assume ?L
  then obtain q1 r1 g1 where
    a: "(q1, r1, g1) \<in> set (run (Grp (Rep Digit 3 (Some 3))) (prev, s, []))" and
    b: "(q', r', g') \<in> set (run (Cat (Alt (Cat (Sym (Lit (CHR ''P''))) (Rep Digit 2 (Some 2)))
              (Alt (Cat (Rep UpperAZ 1 (Some 3)) (Rep Digit 2 (Some 3)))
                   (Rep Digit 3 (Some 3)))) Eol) (q1, r1, g1))"
    unfolding RE_DUCT_NO_def in_run_Cat by blast
  from a have a': "3 \<le> length s" "list_all is_digit (take 3 s)" "r1 = drop 3 s"
    "g1 = [take 3 s]" "q1 = Some (s ! 2)"
    unfolding run_group3 by blast+
  from b have e: "at_end r'" and
    c: "(q', r', g') \<in> set (run (Cat (Sym (Lit (CHR ''P''))) (Rep Digit 2 (Some 2))) (q1, r1, g1))
      \<or> (q', r', g') \<in> set (run (Cat (Rep UpperAZ 1 (Some 3)) (Rep Digit 2 (Some 3))) (q1, r1, g1))
      \<or> (q', r', g') \<in> set (run (Rep Digit 3 (Some 3)) (q1, r1, g1))"
    unfolding in_run_Cat_Eol in_run_Alt by blast+
  from c have "g' = g1" unfolding alt1 alt2 alt3 by blast
  with a' e c show ?R by simp
next
  assume r: ?R
  then have a: "(Some (s ! 2), drop 3 s, [take 3 s]) \<in> set (run (Grp (Rep Digit 3 (Some 3))) (prev, s, []))"
    unfolding run_group3 by simp
  from r have b: "(q', r', g') \<in> set (run (Cat (Alt (Cat (Sym (Lit (CHR ''P''))) (Rep Digit 2 (Some 2)))
              (Alt (Cat (Rep UpperAZ 1 (Some 3)) (Rep Digit 2 (Some 3)))
                   (Rep Digit 3 (Some 3)))) Eol) (Some (s ! 2), drop 3 s, [take 3 s]))"
    unfolding in_run_Cat_Eol in_run_Alt by blast
  show ?L unfolding RE_DUCT_NO_def in_run_Cat [of _ "Grp (Rep Digit 3 (Some 3))"] using a b by blast
qed

lemma duct_run_nonempty:
  assumes "\<not> ends_nl s"
  shows "run RE_DUCT_NO (prev, s, []) \<noteq> [] \<longleftrightarrow> duct_tail s"
proof -
  let ?st = "(Some (s ! 2), drop 3 s, [take 3 s])"
  have n: "\<not> ends_nl (drop 3 s)" using assms by (rule ends_nl_drop)
  have "run RE_DUCT_NO (prev, s, []) \<noteq> [] \<longleftrightarrow>
        (\<exists>q' r' g'. (q', r', g') \<in> set (run RE_DUCT_NO (prev, s, [])))"
    by (cases "run RE_DUCT_NO (prev, s, [])") (auto simp del: run.simps)
  also have "\<dots> \<longleftrightarrow> 3 \<le> length s \<and> list_all is_digit (take 3 s) \<and>
     ((\<exists>q' r' g'. (q', r', g') \<in> set (run (Cat (Sym (Lit (CHR ''P''))) (Rep Digit 2 (Some 2))) ?st) \<and> at_end r')
      \<or> (\<exists>q' r' g'. (q', r', g') \<in> set (run (Cat (Rep UpperAZ 1 (Some 3)) (Rep Digit 2 (Some 3))) ?st) \<and> at_end r')
      \<or> (\<exists>q' r' g'. (q', r', g') \<in> set (run (Rep Digit 3 (Some 3)) ?st) \<and> at_end r'))"
    (is "?A \<longleftrightarrow> ?B")
  proof
    assume ?A then show ?B unfolding duct_run_iff by blast
  next
    assume b: ?B
    then consider
      (1) q' r' g' where "(q', r', g') \<in> set (run (Cat (Sym (Lit (CHR ''P''))) (Rep Digit 2 (Some 2))) ?st)" "at_end r'"
      | (2) q' r' g' where "(q', r', g') \<in> set (run (Cat (Rep UpperAZ 1 (Some 3)) (Rep Digit 2 (Some 3))) ?st)" "at_end r'"
      | (3) q' r' g' where "(q', r', g') \<in> set (run (Rep Digit 3 (Some 3)) ?st)" "at_end r'"
      by blast
    then show ?A
    proof cases
      case 1
      moreover from 1(1) have "g' = [take 3 s]" unfolding alt1 by blast
      ultimately have "(q', r', g') \<in> set (run RE_DUCT_NO (prev, s, []))"
        unfolding duct_run_iff using b by blast
      then show ?thesis by blast
    next
      case 2
      moreover from 2(1) have "g' = [take 3 s]" unfolding alt2 by blast
      ultimately have "(q', r', g') \<in> set (run RE_DUCT_NO (prev, s, []))"
        unfolding duct_run_iff using b by blast
      then show ?thesis by blast
    next
      case 3
      moreover from 3(1) have "g' = [take 3 s]" unfolding alt3 by blast
      ultimately have "(q', r', g') \<in> set (run RE_DUCT_NO (prev, s, []))"
        unfolding duct_run_iff using b by blast
      then show ?thesis by blast
    qed
  qed
  also have "\<dots> \<longleftrightarrow> duct_tail s"
    unfolding alt1_end [OF n] alt2_end [OF n] alt3_end [OF n] duct_tail_def duct_suffix_def
    by blast
  finally show ?thesis .
qed

lemma match_at_RE_DUCT_NO:
  assumes "\<not> ends_nl s"
  shows "match_at RE_DUCT_NO prev s = (if duct_tail s then Some [take 3 s] else None)"
proof (cases "run RE_DUCT_NO (prev, s, [])")
  case Nil
  then have "\<not> duct_tail s" using duct_run_nonempty [OF assms, of prev] by simp
  with Nil show ?thesis by (simp add: match_at_def)
next
  case (Cons st sts)
  obtain q' r' g' where st: "st = (q', r', g')" by (cases st) auto
  have "(q', r', g') \<in> set (run RE_DUCT_NO (prev, s, []))" using Cons st by simp
  then have "g' = [take 3 s]" unfolding duct_run_iff by blast
  moreover have "duct_tail s" using duct_run_nonempty [OF assms, of prev] Cons by simp
  ultimately show ?thesis using Cons st by (simp add: match_at_def)
qed

lemma ends_nl_tl: "\<not> ends_nl (c # cs) \<Longrightarrow> \<not> ends_nl cs"
  by (cases cs) (simp_all add: ends_nl_def)

lemma duct_tail_Nil: "\<not> duct_tail []"
  by (simp add: duct_tail_def)

lemma search_RE_DUCT_NO:
  "\<not> ends_nl s \<Longrightarrow>
     search_from RE_DUCT_NO prev s = map_option (\<lambda>d. [d]) (spec_duct_search s)"
proof (induction s arbitrary: prev)
  case Nil
  then show ?case by (simp add: match_at_RE_DUCT_NO duct_tail_Nil)
next
  case (Cons c cs)
  from Cons.prems have "\<not> ends_nl cs" by (rule ends_nl_tl)
  then have "search_from RE_DUCT_NO (Some c) cs = map_option (\<lambda>d. [d]) (spec_duct_search cs)"
    by (rule Cons.IH)
  then show ?case using Cons.prems by (simp add: match_at_RE_DUCT_NO)
qed

subsection \<open>Duct number extraction\<close>

lemma split_on_first: "split_on sep t ! 0 = takeWhile (\<lambda>c. c \<noteq> sep) t"
  by (induction t) (auto split: list.splits simp: split_on_not_Nil)

lemma upper_char_cases: "upper_char c = c \<or> is_upper_AZ (upper_char c)"
proof (cases "map_of (zip ''abcdefghijklmnopqrstuvwxyz'' ''ABCDEFGHIJKLMNOPQRSTUVWXYZ'') c")
  case None
  then show ?thesis by (simp add: upper_char_def)
next
  case (Some u)
  then have "(c, u) \<in> set (zip ''abcdefghijklmnopqrstuvwxyz'' ''ABCDEFGHIJKLMNOPQRSTUVWXYZ'')"
    by (rule map_of_SomeD)
  then have "u \<in> set ''ABCDEFGHIJKLMNOPQRSTUVWXYZ''" by (rule set_zip_rightD)
  then show ?thesis using Some by (simp add: upper_char_def is_upper_AZ_def)
qed

lemma strip_class_last: "strip_class p s \<noteq> [] \<Longrightarrow> \<not> p (last (strip_class p s))"
proof -
  assume a: "strip_class p s \<noteq> []"
  let ?d = "dropWhile p (rev (dropWhile p s))"
  from a have d: "?d \<noteq> []" by (simp add: strip_class_def)
  then have "\<not> p (hd ?d)" by (rule hd_dropWhile)
  moreover have "last (strip_class p s) = hd ?d" using d by (simp add: strip_class_def last_rev)
  ultimately show ?thesis by simp
qed

lemma upper_strip_no_final_newline: "\<not> ends_nl (upper (strip x))"
proof
  assume e: "ends_nl (upper (strip x))"
  then have n: "strip x \<noteq> []" and l: "upper_char (last (strip x)) = CHR 0x0A"
    by (auto simp: ends_nl_def upper_def last_map)
  from n have s: "\<not> is_space (last (strip x))" unfolding strip_def by (rule strip_class_last)
  from upper_char_cases [of "last (strip x)"] show False
  proof
    assume "upper_char (last (strip x)) = last (strip x)"
    with l s show False by (simp add: is_space_def)
  next
    assume "is_upper_AZ (upper_char (last (strip x)))"
    with l show False by (simp add: is_upper_AZ_def)
  qed
qed

lemma extract_duct_no_Str:
  "extract_duct_no (Str t) = spec_extract_duct_no (Str t)"
  by (simp add: extract_duct_no_def spec_extract_duct_no_def re_search_def Let_def
      search_RE_DUCT_NO [OF upper_strip_no_final_newline] split_on_first split: option.splits)

lemmas regex_eval = re_search_def re_match_def match_at_def

text \<open>
  C2. For every input, \<^const>\<open>extract_duct_no\<close> returns null on a value that is
  not a text; otherwise it takes the part before the first parenthesis, trims it,
  puts it in upper case and returns the 3-digit group of the match that ends the text,
  in which the 3 digits are followed by P and 2 digits, or by 1 to 3 capital letters
  and 2 to 3 digits, or by exactly 3 digits; null when there is no such match. The five
  examples of the specification are instances.
\<close>

theorem extract_duct_no_spec:
  "extract_duct_no code = spec_extract_duct_no code
   \<and> extract_duct_no NaN = PyNone
   \<and> extract_duct_no PyNone = PyNone
   \<and> extract_duct_no (Str ''AHU-04-637X01'') = Str ''637''
   \<and> extract_duct_no (Str ''AHU-04-637HX01'') = Str ''637''
   \<and> extract_duct_no (Str ''AHU-04-637P02'') = Str ''637''
   \<and> extract_duct_no (Str ''AHU-04-637123'') = Str ''637''
   \<and> extract_duct_no (Str ''NO-MATCH-HERE'') = PyNone"
proof -
  have "extract_duct_no code = spec_extract_duct_no code"
    by (cases code) (simp_all add: extract_duct_no_Str, simp_all add: extract_duct_no_def spec_extract_duct_no_def)
  moreover have "extract_duct_no NaN = PyNone" "extract_duct_no PyNone = PyNone"
    by (simp_all add: extract_duct_no_def)
  moreover have "extract_duct_no (Str ''AHU-04-637X01'') = Str ''637''"
    by (simp add: extract_duct_no_def RE_DUCT_NO_def regex_eval text_eval)
  moreover have "extract_duct_no (Str ''AHU-04-637HX01'') = Str ''637''"
    by (simp add: extract_duct_no_def RE_DUCT_NO_def regex_eval text_eval)
  moreover have "extract_duct_no (Str ''AHU-04-637P02'') = Str ''637''"
    by (simp add: extract_duct_no_def RE_DUCT_NO_def regex_eval text_eval)
  moreover have "extract_duct_no (Str ''AHU-04-637123'') = Str ''637''"
    by (simp add: extract_duct_no_def RE_DUCT_NO_def regex_eval text_eval)
  moreover have "extract_duct_no (Str ''NO-MATCH-HERE'') = PyNone"
    by (simp add: extract_duct_no_def RE_DUCT_NO_def regex_eval text_eval)
  ultimately show ?thesis by simp
qed

theorem extract_duct_no_spec_witness:
  "extract_duct_no (Str ''ahu-04-637hx012 (rev 2)'') = Str ''637''
   \<and> spec_extract_duct_no (Str ''ahu-04-637hx012 (rev 2)'') = Str ''637''"
  using extract_duct_no_spec [of "Str ''ahu-04-637hx012 (rev 2)''"]
  by (simp add: spec_extract_duct_no_def duct_tail_def duct_suffix_def text_eval)

subsection \<open>Loading the uploaded files\<close>

lemma foldl_read_file:
  "foldl read_file (all_rows, errors) files =
     (all_rows @ usable_sheets files, errors @ read_errors files)"
  by (induction files arbitrary: all_rows errors)
     (auto simp: read_file_def usable_sheets_def read_errors_def split: sum.splits)

lemma load_uploaded_excels_alt:
  "load_uploaded_excels to_numeric to_datetime files =
     (if usable_sheets files = [] then Inr ([], read_errors files)
      else if \<exists>c \<in> set REQUIRED_COLS. c \<notin> set (big_columns (usable_sheets files))
      then Inl (ValueError (filter (\<lambda>c. c \<notin> set (big_columns (usable_sheets files))) REQUIRED_COLS))
      else case derive to_numeric to_datetime (big_records (usable_sheets files)) of
             Inl e \<Rightarrow> Inl e
           | Inr big \<Rightarrow> Inr (big, read_errors files))"
  by (auto simp: load_uploaded_excels_def foldl_read_file Let_def filter_empty_conv)

lemma in_big_columns:
  "c \<in> set (big_columns sheets) \<longleftrightarrow> (\<exists>df \<in> set sheets. \<exists>h \<in> set (fst df). strip h = c)"
  unfolding big_columns_def by (simp add: image_iff) blast

lemma usable_sheets_readable: "usable_sheets (filter readable files) = usable_sheets files"
  by (induction files) (auto simp: usable_sheets_def readable_def split: sum.splits)

lemma read_errors_readable: "read_errors (filter readable files) = []"
  by (induction files) (auto simp: read_errors_def readable_def split: sum.splits)

lemma in_read_errors:
  "(n, e) \<in> set (read_errors files) \<longleftrightarrow>
     (\<exists>uf \<in> set files. read_excel uf = Inl e \<and> n = getattr_name uf)"
  unfolding read_errors_def
  by (auto split: sum.splits) (metis sum.simps(6) singletonI list.set(1) list.set(2))

lemma length_coerce: "length (coerce reader xs) = length xs"
  by (simp add: coerce_def)

lemma length_fillna: "length (fillna v xs) = length xs"
  by (simp add: fillna_def)

lemma coerce_nth:
  "i < length xs \<Longrightarrow>
     coerce reader xs ! i = (case xs ! i of Str s \<Rightarrow> reader xs i | _ \<Rightarrow> None)"
  by (simp add: coerce_def nth_enumerate_eq)

lemma length_build_duct_key_column:
  "build_duct_key_column df = Inr keys \<Longrightarrow> length keys = length df"
  by (auto simp: build_duct_key_column_def Let_def split: if_splits)

lemma derive_Inl:
  "derive to_numeric to_datetime big = Inl e \<longleftrightarrow>
     build_duct_key_column
       (zip (map (\<lambda>r. extract_duct_no (col r ''DU Code'')) big)
            (map (\<lambda>r. col r ''DU Description'') big)) = Inl e"
  by (simp add: derive_def Let_def split: sum.splits)

lemma derive_Inr_key:
  assumes "derive to_numeric to_datetime big = Inr rows"
  shows "build_duct_key_column
           (zip (map (\<lambda>r. extract_duct_no (col r ''DU Code'')) big)
                (map (\<lambda>r. col r ''DU Description'') big)) = Inr (map Duct_Key rows)"
proof -
  from assms obtain keys where
    k: "build_duct_key_column
       (zip (map (\<lambda>r. extract_duct_no (col r ''DU Code'')) big)
            (map (\<lambda>r. col r ''DU Description'') big)) = Inr keys"
    by (auto simp: derive_def Let_def split: sum.splits)
  have l: "length keys = length big" using length_build_duct_key_column [OF k] by simp
  have "map Duct_Key rows = keys"
    using assms k l
    by (intro nth_equalityI) (auto simp: derive_def Let_def length_coerce length_fillna)
  with k show ?thesis by simp
qed

lemma derive_Inr:
  assumes "derive to_numeric to_datetime big = Inr rows"
  shows "length rows = length big"
    and "i < length big \<Longrightarrow> Vendor_Name (rows ! i) = col (big ! i) ''Vendor Name''"
    and "i < length big \<Longrightarrow> PO_No (rows ! i) = col (big ! i) ''PO No''"
    and "i < length big \<Longrightarrow>
           Package_Code_of_Description (rows ! i) = col (big ! i) ''Package Code of Description''"
    and "i < length big \<Longrightarrow> DU_Code (rows ! i) = col (big ! i) ''DU Code''"
    and "i < length big \<Longrightarrow> DU_Description (rows ! i) = col (big ! i) ''DU Description''"
    and "i < length big \<Longrightarrow> Package_Code_of_MR (rows ! i) = col (big ! i) ''Package Code of MR''"
    and "i < length big \<Longrightarrow> Mark_No (rows ! i) = col (big ! i) ''Mark No''"
    and "i < length big \<Longrightarrow>
           Total_Weight (rows ! i)
             = fillna 0 (coerce to_numeric (map (\<lambda>r. col r ''Total Weight'') big)) ! i"
    and "i < length big \<Longrightarrow> Duct_No (rows ! i) = extract_duct_no (col (big ! i) ''DU Code'')"
proof -
  from assms obtain keys where
    k: "build_duct_key_column
       (zip (map (\<lambda>r. extract_duct_no (col r ''DU Code'')) big)
            (map (\<lambda>r. col r ''DU Description'') big)) = Inr keys"
    by (auto simp: derive_def Let_def split: sum.splits)
  have l: "length keys = length big" using length_build_duct_key_column [OF k] by simp
  define ws where "ws = fillna 0 (coerce to_numeric (map (\<lambda>r. col r ''Total Weight'') big))"
  define ds where "ds = coerce to_datetime (map (\<lambda>r. col r ''Modified On'') big)"
  have lw: "length ws = length big" and ld: "length ds = length big"
    by (simp_all add: ws_def ds_def length_coerce length_fillna)
  have r: "rows = map (\<lambda>(r, dn, uw, dk, tw, mo).
                       \<lparr> Vendor_Name = col r ''Vendor Name'',
                         PO_No = col r ''PO No'',
                         Package_Code_of_Description = col r ''Package Code of Description'',
                         DU_Code = col r ''DU Code'',
                         DU_Description = col r ''DU Description'',
                         Total_Weight = tw,
                         Modified_On = mo,
                         Package_Code_of_MR = col r ''Package Code of MR'',
                         Mark_No = col r ''Mark No'',
                         Duct_No = dn,
                         Unit_No = fst uw,
                         WBS_Code = snd uw,
                         Duct_Key = dk \<rparr>)
                    (zip big (zip (map (\<lambda>r. extract_duct_no (col r ''DU Code'')) big)
                       (zip (map (\<lambda>r. extract_unit_wbs (col r ''Package Code of MR'')) big)
                          (zip keys (zip ws ds)))))"
    using assms k by (simp add: derive_def Let_def ws_def ds_def)
  show "length rows = length big" unfolding r using l lw ld by simp
  assume i: "i < length big"
  show "Vendor_Name (rows ! i) = col (big ! i) ''Vendor Name''"
    unfolding r using i l lw ld by simp
  show "PO_No (rows ! i) = col (big ! i) ''PO No''"
    unfolding r using i l lw ld by simp
  show "Package_Code_of_Description (rows ! i) = col (big ! i) ''Package Code of Description''"
    unfolding r using i l lw ld by simp
  show "DU_Code (rows ! i) = col (big ! i) ''DU Code''"
    unfolding r using i l lw ld by simp
  show "DU_Description (rows ! i) = col (big ! i) ''DU Description''"
    unfolding r using i l lw ld by simp
  show "Package_Code_of_MR (rows ! i) = col (big ! i) ''Package Code of MR''"
    unfolding r using i l lw ld by simp
  show "Mark_No (rows ! i) = col (big ! i) ''Mark No''"
    unfolding r using i l lw ld by simp
  show "Total_Weight (rows ! i)
             = fillna 0 (coerce to_numeric (map (\<lambda>r. col r ''Total Weight'') big)) ! i"
    unfolding r using i l lw ld by (simp add: ws_def)
  show "Duct_No (rows ! i) = extract_duct_no (col (big ! i) ''DU Code'')"
    unfolding r using i l lw ld by simp
qed

lemma col_sheet_cell: "col (zip (map strip hs) r) c = sheet_cell (hs, rows) r c"
proof -
  have "map_of (zip (map strip hs) r) c
          = map_option snd (find (\<lambda>hv. strip (fst hv) = c) (zip hs r))"
  proof (induction hs arbitrary: r)
    case Nil
    then show ?case by simp
  next
    case (Cons h hs)
    then show ?case by (cases r) auto
  qed
  then show ?thesis by (simp add: col_def sheet_cell_def split: option.splits)
qed

lemma big_records_column:
  "map (\<lambda>r. col r c) (big_records (usable_sheets files)) = table_column files c"
proof -
  have "map (\<lambda>r. col r c) (big_records sheets)
          = concat (map (\<lambda>df. map (\<lambda>r. sheet_cell df r c) (snd df)) sheets)" for sheets
  proof (induction sheets)
    case Nil
    then show ?case by (simp add: big_records_def)
  next
    case (Cons df sheets)
    have "map (\<lambda>r. col r c) (map (\<lambda>r. zip (map strip (fst df)) r) (snd df))
            = map (\<lambda>r. sheet_cell df r c) (snd df)"
      using col_sheet_cell [of "fst df" _ c "snd df"] by simp
    then show ?case using Cons by (simp add: big_records_def)
  qed
  then show ?thesis by (simp add: table_column_def)
qed

lemma map_field_column:
  assumes "length rows = length big"
    and "\<And>i. i < length big \<Longrightarrow> f (rows ! i) = col (big ! i) c"
  shows "map f rows = map (\<lambda>r. col r c) big"
  using assms by (intro nth_equalityI) simp_all

lemma derive_text_fields:
  assumes "derive to_numeric to_datetime (big_records (usable_sheets files)) = Inr rows"
  shows "list_all (\<lambda>cf. map (snd cf) rows = table_column files (fst cf)) text_fields"
proof -
  note d = derive_Inr [OF assms]
  have 1: "map Vendor_Name rows = table_column files ''Vendor Name''"
    unfolding big_records_column [symmetric] by (rule map_field_column [OF d(1) d(2)])
  have 2: "map PO_No rows = table_column files ''PO No''"
    unfolding big_records_column [symmetric] by (rule map_field_column [OF d(1) d(3)])
  have 3: "map Package_Code_of_Description rows = table_column files ''Package Code of Description''"
    unfolding big_records_column [symmetric] by (rule map_field_column [OF d(1) d(4)])
  have 4: "map DU_Code rows = table_column files ''DU Code''"
    unfolding big_records_column [symmetric] by (rule map_field_column [OF d(1) d(5)])
  have 5: "map DU_Description rows = table_column files ''DU Description''"
    unfolding big_records_column [symmetric] by (rule map_field_column [OF d(1) d(6)])
  have 6: "map Package_Code_of_MR rows = table_column files ''Package Code of MR''"
    unfolding big_records_column [symmetric] by (rule map_field_column [OF d(1) d(7)])
  have 7: "map Mark_No rows = table_column files ''Mark No''"
    unfolding big_records_column [symmetric] by (rule map_field_column [OF d(1) d(8)])
  show ?thesis by (simp add: text_fields_def 1 2 3 4 5 6 7)
qed


text \<open>
  C7. When data has been ingested (some sheet of some readable file has a column and a
  row) and a required column is absent from the unified table under its trimmed name,
  \<^const>\<open>load_uploaded_excels\<close> fails with a \<^const>\<open>ValueError\<close> that names exactly the
  required columns that are absent. The failure is the whole result: no derived column
  is computed and no table is returned.
\<close>

theorem load_missing_required_column:
  assumes "usable_sheets files \<noteq> []"
    and "c \<in> set REQUIRED_COLS"
    and "\<forall>df \<in> set (usable_sheets files). \<forall>h \<in> set (fst df). strip h \<noteq> c"
  shows "\<exists>missing.
           load_uploaded_excels to_numeric to_datetime files = Inl (ValueError missing)
           \<and> c \<in> set missing
           \<and> (\<forall>m. m \<in> set missing \<longleftrightarrow>
                    m \<in> set REQUIRED_COLS
                    \<and> (\<forall>df \<in> set (usable_sheets files). \<forall>h \<in> set (fst df). strip h \<noteq> m))"
proof -
  let ?missing = "filter (\<lambda>c. c \<notin> set (big_columns (usable_sheets files))) REQUIRED_COLS"
  have c: "c \<notin> set (big_columns (usable_sheets files))"
    using assms(3) unfolding in_big_columns by blast
  with assms(2) have "\<exists>c \<in> set REQUIRED_COLS. c \<notin> set (big_columns (usable_sheets files))"
    by blast
  with assms(1) have "load_uploaded_excels to_numeric to_datetime files = Inl (ValueError ?missing)"
    unfolding load_uploaded_excels_alt by simp
  moreover have "c \<in> set ?missing" using c assms(2) by simp
  moreover have "\<forall>m. m \<in> set ?missing \<longleftrightarrow>
                    m \<in> set REQUIRED_COLS
                    \<and> (\<forall>df \<in> set (usable_sheets files). \<forall>h \<in> set (fst df). strip h \<noteq> m)"
    unfolding set_filter mem_Collect_eq in_big_columns by blast
  ultimately show ?thesis by blast
qed

lemmas load_eval =
  usable_sheets_def read_errors_def readable_def df_empty_def getattr_name_def
  big_columns_def big_records_def col_def REQUIRED_COLS_def

theorem load_missing_required_column_witness:
  "\<exists>missing.
     load_uploaded_excels (\<lambda>column i. None :: rat option) (\<lambda>column i. None)
       [UploadedFile (Some ''a.xlsx'') (Inr [([''DU Code '', ''Vendor Name''], [[Str ''X'', NaN]])])]
       = Inl (ValueError missing)
     \<and> ''Mark No'' \<in> set missing \<and> ''DU Code'' \<notin> set missing"
proof -
  let ?files = "[UploadedFile (Some ''a.xlsx'') (Inr [([''DU Code '', ''Vendor Name''], [[Str ''X'', NaN]])])]"
  have 1: "usable_sheets ?files \<noteq> []" by (simp add: load_eval)
  have 2: "''Mark No'' \<in> set REQUIRED_COLS" by (simp add: REQUIRED_COLS_def)
  have 3: "\<forall>df \<in> set (usable_sheets ?files). \<forall>h \<in> set (fst df). strip h \<noteq> ''Mark No''"
    by (simp add: load_eval text_eval)
  have 4: "\<exists>df \<in> set (usable_sheets ?files). \<exists>h \<in> set (fst df). strip h = ''DU Code''"
    by (simp add: load_eval text_eval)
  from load_missing_required_column [OF 1 2 3, of "\<lambda>column i. None :: rat option" "\<lambda>column i. None"] 4
  show ?thesis by blast
qed

lemma load_cases:
  "load_uploaded_excels to_numeric to_datetime files = Inr (big, errors) \<longleftrightarrow>
     errors = read_errors files \<and>
     (if usable_sheets files = [] then big = []
      else (\<forall>c \<in> set REQUIRED_COLS. c \<in> set (big_columns (usable_sheets files)))
           \<and> derive to_numeric to_datetime (big_records (usable_sheets files)) = Inr big)"
  unfolding load_uploaded_excels_alt by (auto split: sum.splits)

lemma table_column_empty: "usable_sheets files = [] \<Longrightarrow> table_column files c = []"
  by (simp add: table_column_def)

lemma load_text_fields:
  assumes "load_uploaded_excels to_numeric to_datetime files = Inr (big, errors)"
  shows "list_all (\<lambda>cf. map (snd cf) big = table_column files (fst cf)) text_fields"
proof (cases "usable_sheets files = []")
  case True
  then have "big = []" using assms unfolding load_cases by simp
  then show ?thesis using True by (simp add: text_fields_def table_column_empty)
next
  case False
  then have "derive to_numeric to_datetime (big_records (usable_sheets files)) = Inr big"
    using assms unfolding load_cases by simp
  then show ?thesis by (rule derive_text_fields)
qed

lemma table_column_readable: "table_column (filter readable files) c = table_column files c"
  by (simp add: table_column_def usable_sheets_readable)

lemma extract_duct_no_example:
  "extract_duct_no (Str ''AHU-04-637P02'') = Str ''637''"
  "extract_duct_no (Str ''NO-MATCH-HERE'') = PyNone"
  by (simp_all add: extract_duct_no_def RE_DUCT_NO_def regex_eval text_eval)

lemma detect_duct_prefix_for_block_example:
  "detect_duct_prefix_for_block [Str ''PANEL AB''] = Str ''AB''"
  by (simp add: detect_duct_prefix_for_block_def str_contains_def RE_AB_CODE_def RE_GB_CODE_def
        RE_PANEL_TAG_def word_before_def word_at_def regex_eval text_eval)

lemma build_duct_key_column_example:
  "build_duct_key_column [(Str ''637'', Str ''PANEL AB'')] = Inr [Str ''AB637'']"
  "build_duct_key_column [(Str ''637'', Str ''PANEL AB''), (PyNone, Str ''FLANGE'')]
     = Inr [Str ''AB637'', Str ''None'']"
  by (simp_all add: build_duct_key_column_def detect_duct_prefix_for_block_example)

lemma strip_REQUIRED_COLS: "map strip REQUIRED_COLS = REQUIRED_COLS"
  by (simp add: REQUIRED_COLS_def text_eval)

lemma example_sheet_records:
  "big_records [(REQUIRED_COLS, rows)] = map (zip REQUIRED_COLS) rows"
  by (simp add: big_records_def strip_REQUIRED_COLS)

lemma example_sheet_columns:
  "\<forall>c \<in> set REQUIRED_COLS. c \<in> set (big_columns ((REQUIRED_COLS, rows) # sheets))"
proof
  fix c assume c: "c \<in> set REQUIRED_COLS"
  have "map strip REQUIRED_COLS = map (\<lambda>c. c) REQUIRED_COLS"
    using strip_REQUIRED_COLS by simp
  then have "strip c = c" using c unfolding map_eq_conv by blast
  then show "c \<in> set (big_columns ((REQUIRED_COLS, rows) # sheets))"
    unfolding in_big_columns using c by auto
qed

lemma example_cells_col:
  "col (zip REQUIRED_COLS (example_cells du_code du_description weight)) ''DU Code'' = Str du_code"
  "col (zip REQUIRED_COLS (example_cells du_code du_description weight)) ''DU Description''
     = Str du_description"
  "col (zip REQUIRED_COLS (example_cells du_code du_description weight)) ''Total Weight'' = weight"
  by (simp_all add: col_def REQUIRED_COLS_def example_cells_def)

text \<open>
  C8, as amended. A file that cannot be read is skipped and its name and message are
  collected, while the load goes on with the other files: the load ends as it does on
  the readable files alone, with the same table or the same failure, so an unreadable
  file never makes the run fail. When the load returns, the list it returns, which the
  page shows, holds the name and the message of every unreadable file and nothing else,
  and the table has the rows of the sheets of the readable files, in order, with their
  cells.
\<close>

theorem load_skips_unreadable_files:
  "map_sum id fst (load_uploaded_excels to_numeric to_datetime files)
     = map_sum id fst (load_uploaded_excels to_numeric to_datetime (filter readable files))
   \<and> (\<forall>big errors. load_uploaded_excels to_numeric to_datetime files = Inr (big, errors)
          \<longrightarrow> errors = read_errors files
              \<and> files_skipped (load_uploaded_excels to_numeric to_datetime files)
                  = read_errors files
              \<and> list_all (\<lambda>cf. map (snd cf) big = table_column (filter readable files) (fst cf))
                   text_fields)
   \<and> (\<forall>n e. (n, e) \<in> set (read_errors files) \<longleftrightarrow>
          (\<exists>uf \<in> set files. read_excel uf = Inl e \<and> n = getattr_name uf))"
proof (intro conjI allI impI)
  show "map_sum id fst (load_uploaded_excels to_numeric to_datetime files)
     = map_sum id fst (load_uploaded_excels to_numeric to_datetime (filter readable files))"
    unfolding load_uploaded_excels_alt usable_sheets_readable by (simp split: sum.splits)
next
  fix big errors
  assume l: "load_uploaded_excels to_numeric to_datetime files = Inr (big, errors)"
  then show e: "errors = read_errors files" unfolding load_cases by simp
  show "files_skipped (load_uploaded_excels to_numeric to_datetime files) = read_errors files"
    unfolding l using e by (simp add: files_skipped_def)
  show "list_all (\<lambda>cf. map (snd cf) big = table_column (filter readable files) (fst cf))
          text_fields"
    unfolding table_column_readable using l by (rule load_text_fields)
next
  fix n e
  show "(n, e) \<in> set (read_errors files) \<longleftrightarrow>
          (\<exists>uf \<in> set files. read_excel uf = Inl e \<and> n = getattr_name uf)"
    by (rule in_read_errors)
qed

theorem load_skips_unreadable_files_witness:
  "\<exists>big.
     load_uploaded_excels (\<lambda>column i. None :: rat option) (\<lambda>column i. None)
       [UploadedFile None (Inl ''File is not a zip file''),
        UploadedFile (Some ''b.xlsx'')
          (Inr [(REQUIRED_COLS, [example_cells ''AHU-04-637P02'' ''PANEL AB'' (Str ''12'')])])]
       = Inr (big, [(''uploaded.xlsx'', ''File is not a zip file'')])
     \<and> map DU_Code big = [Str ''AHU-04-637P02'']"
proof -
  let ?tn = "\<lambda>column i. None :: rat option"
  let ?td = "\<lambda>column i. None :: int option"
  let ?cells = "example_cells ''AHU-04-637P02'' ''PANEL AB'' (Str ''12'')"
  let ?bad = "UploadedFile None (Inl ''File is not a zip file'')"
  let ?good = "UploadedFile (Some ''b.xlsx'') (Inr [(REQUIRED_COLS, [?cells])])"
  have u: "usable_sheets [?bad, ?good] = [(REQUIRED_COLS, [?cells])]"
    by (simp add: usable_sheets_def df_empty_def REQUIRED_COLS_def example_cells_def)
  have "\<not> (\<exists>e. derive ?tn ?td [zip REQUIRED_COLS ?cells] = Inl e)"
    unfolding derive_Inl
    by (simp add: example_cells_col extract_duct_no_example build_duct_key_column_example)
  then obtain big where "derive ?tn ?td [zip REQUIRED_COLS ?cells] = Inr big"
    by (cases "derive ?tn ?td [zip REQUIRED_COLS ?cells]") auto
  then have l: "load_uploaded_excels ?tn ?td [?bad, ?good] = Inr (big, read_errors [?bad, ?good])"
    unfolding load_cases u using example_sheet_columns [of "[?cells]" "[]"]
    by (simp add: example_sheet_records)
  have f: "filter readable [?bad, ?good] = [?good]" by (simp add: readable_def)
  have e: "read_errors [?bad, ?good] = [(''uploaded.xlsx'', ''File is not a zip file'')]"
    by (simp add: read_errors_def getattr_name_def)
  have c: "table_column [?good] ''DU Code'' = [Str ''AHU-04-637P02'']"
    by (simp add: table_column_def usable_sheets_def df_empty_def sheet_cell_def
          REQUIRED_COLS_def example_cells_def text_eval)
  from load_skips_unreadable_files [of ?tn ?td "[?bad, ?good]"] l
  have "list_all (\<lambda>cf. map (snd cf) big = table_column (filter readable [?bad, ?good]) (fst cf))
          text_fields"
    by blast
  then have "map DU_Code big = [Str ''AHU-04-637P02'']"
    unfolding f by (simp add: text_fields_def c)
  with l e show ?thesis by auto
qed

text \<open>
  C8 as stated fails: when the load of the other files fails, here for the required
  columns that the readable file lacks, the failure is all that reaches the page, and
  the unreadable file is not reported.
\<close>

theorem unreadable_file_not_reported_counterexample:
  "load_uploaded_excels (\<lambda>column i. None :: rat option) (\<lambda>column i. None)
     [UploadedFile (Some ''a.xlsx'') (Inl ''File is not a zip file''),
      UploadedFile (Some ''b.xlsx'') (Inr [([''DU Code'', ''Mark No''], [[Str ''AHU-04-637P02'', Str ''P2'']])])]
     = Inl (ValueError [''Vendor Name'', ''PO No'', ''Package Code of Description'',
                        ''DU Description'', ''Total Weight'', ''Modified On'',
                        ''Package Code of MR''])
   \<and> files_skipped
         (load_uploaded_excels (\<lambda>column i. None :: rat option) (\<lambda>column i. None)
            [UploadedFile (Some ''a.xlsx'') (Inl ''File is not a zip file''),
             UploadedFile (Some ''b.xlsx'') (Inr [([''DU Code'', ''Mark No''], [[Str ''AHU-04-637P02'', Str ''P2'']])])])
       = []"
proof -
  let ?files = "[UploadedFile (Some ''a.xlsx'') (Inl ''File is not a zip file''),
      UploadedFile (Some ''b.xlsx'') (Inr [([''DU Code'', ''Mark No''], [[Str ''AHU-04-637P02'', Str ''P2'']])])]"
  have "load_uploaded_excels (\<lambda>column i. None :: rat option) (\<lambda>column i. None) ?files
     = Inl (ValueError [''Vendor Name'', ''PO No'', ''Package Code of Description'',
                        ''DU Description'', ''Total Weight'', ''Modified On'',
                        ''Package Code of MR''])"
    unfolding load_uploaded_excels_alt by (simp add: load_eval text_eval)
  then show ?thesis by (simp add: files_skipped_def)
qed

subsection \<open>The prefix patterns\<close>

lemma run_lits:
  "run (lits x) (prev, s, g) =
     (if take (length x) s = x
      then [(if x = [] then prev else Some (last x), drop (length x) s, g)] else [])"
proof (induction x arbitrary: prev s)
  case Nil
  then show ?case by simp
next
  case (Cons c cs)
  show ?case
  proof (cases s)
    case Nil
    then show ?thesis by simp
  next
    case (Cons d ds)
    then show ?thesis using Cons.IH [of "Some c" ds] by auto
  qed
qed

lemma run_litsI:
  "run (litsI x) (prev, s, g) =
     (if length x \<le> length s \<and> upper (take (length x) s) = upper x
      then [(if x = [] then prev else Some (s ! (length x - 1)), drop (length x) s, g)] else [])"
proof (induction x arbitrary: prev s)
  case Nil
  then show ?case by (simp add: upper_def)
next
  case (Cons c cs)
  show ?case
  proof (cases s)
    case Nil
    then show ?thesis by simp
  next
    case (Cons d ds)
    then show ?thesis using Cons.IH [of "Some d" ds] by (auto simp: upper_def)
  qed
qed

lemma match_at_Alt:
  "match_at (Alt a b) prev s \<noteq> None \<longleftrightarrow> match_at a prev s \<noteq> None \<or> match_at b prev s \<noteq> None"
  by (auto simp: match_at_None_iff)

lemma dropWhile_drop:
  assumes "k \<le> length s" "list_all p (take k s)" "drop k s \<noteq> []" "\<not> p (hd (drop k s))"
  shows "dropWhile p s = drop k s"
proof -
  have "dropWhile p (take k s @ drop k s) = dropWhile p (drop k s)"
    using assms(2) by (intro dropWhile_append2) (simp add: list_all_iff)
  moreover have "dropWhile p (drop k s) = drop k s"
    using assms(3,4) by (simp add: dropWhile_eq_self_iff)
  ultimately show ?thesis by simp
qed

lemma drop_dropWhile:
  "\<exists>k \<le> length s. list_all p (take k s) \<and> drop k s = dropWhile p s"
proof (intro exI[of _ "length (takeWhile p s)"] conjI)
  show "length (takeWhile p s) \<le> length s" by (rule length_takeWhile_le)
  have "take (length (takeWhile p s)) s = takeWhile p s"
    by (metis append_eq_conv_conj takeWhile_dropWhile_id)
  then show "list_all p (take (length (takeWhile p s)) s)"
    by (simp add: list_all_iff) (meson set_takeWhileD)
  show "drop (length (takeWhile p s)) s = dropWhile p s"
    by (metis append_eq_conv_conj takeWhile_dropWhile_id)
qed

lemma digit_not_space: "is_digit c \<Longrightarrow> \<not> is_space c"
  by (auto simp: is_digit_def is_space_def)

lemma digit_word: "is_digit c \<Longrightarrow> is_word c"
  by (simp add: is_word_def)

lemma in_run_lits:
  "(q, r, g') \<in> set (run (lits x) (prev, s, g)) \<longleftrightarrow>
     take (length x) s = x \<and> q = (if x = [] then prev else Some (last x))
     \<and> r = drop (length x) s \<and> g' = g"
  unfolding run_lits by auto

lemma in_run_star:
  "(q, r, g') \<in> set (run (Rep x 0 None) (prev, s, g)) \<longleftrightarrow>
     g' = g \<and> (\<exists>k. k \<le> length s \<and> list_all (in_cls x) (take k s) \<and> r = drop k s
        \<and> q = (if k = 0 then prev else Some (s ! (k - 1))))"
  unfolding in_run_Rep rep_run_iff by simp

text \<open>
  The pattern of a code, \<^verbatim>\<open>\bTAG\s*\d{3}\b\<close>, matches at a position exactly when the
  code stands there as a word of its own.
\<close>

lemma in_run_code:
  assumes "tag \<noteq> []" "is_word (hd tag)"
  shows "(\<exists>st'. st' \<in> set (run (Cat WordB (Cat (lits tag) (Cat (Rep Space 0 None)
                                (Cat (Rep Digit 3 (Some 3)) WordB)))) (prev, s, g)))
         \<longleftrightarrow> code_here tag prev s"
  (is "?L \<longleftrightarrow> ?R")
proof
  assume ?L
  then obtain st' q1 r1 g1 q2 r2 g2 q3 r3 g3 q4 r4 g4 where
    1: "(q1, r1, g1) \<in> set (run WordB (prev, s, g))" and
    2: "(q2, r2, g2) \<in> set (run (lits tag) (q1, r1, g1))" and
    3: "(q3, r3, g3) \<in> set (run (Rep Space 0 None) (q2, r2, g2))" and
    4: "(q4, r4, g4) \<in> set (run (Rep Digit 3 (Some 3)) (q3, r3, g3))" and
    5: "st' \<in> set (run WordB (q4, r4, g4))"
    unfolding in_run_Cat by blast
  from 1 have w: "word_before prev \<noteq> word_at s" and e1: "q1 = prev" "r1 = s"
    unfolding in_run_WordB by simp_all
  from 2 e1 have t: "take (length tag) s = tag" and r2: "r2 = drop (length tag) s"
    unfolding in_run_lits by simp_all
  from 3 obtain k where k: "k \<le> length r2" "list_all is_space (take k r2)" "r3 = drop k r2"
    unfolding in_run_star in_cls_eta by blast
  from 4 have d: "3 \<le> length r3" "list_all is_digit (take 3 r3)" "r4 = drop 3 r3"
    "q4 = Some (r3 ! 2)"
    unfolding alt3 by simp_all
  from 5 have w4: "word_before q4 \<noteq> word_at r4" unfolding in_run_WordB by simp
  have "s \<noteq> []" using t assms(1) by auto
  moreover have "hd s = hd tag" using t assms(1) by (metis hd_take length_greater_0_conv)
  ultimately have "word_at s" using assms(2) by (cases s) (simp_all add: word_at_def)
  with w have a: "\<not> word_before prev" by simp
  have r3n: "r3 \<noteq> []" using d(1) by auto
  have "is_digit (hd r3)" using d(1,2) by (cases r3) simp_all
  then have "\<not> is_space (hd r3)" by (rule digit_not_space)
  with k r3n have dw: "dropWhile is_space r2 = r3"
    using dropWhile_drop [of k r2 is_space] by simp
  have "is_digit (r3 ! 2)" using d(1,2) by (simp add: list_all_length)
  then have "word_before q4" using d(4) by (simp add: word_before_def digit_word)
  with w4 have "\<not> word_at r4" by simp
  with a t d dw r2 show ?R by (simp add: code_here_def Let_def)
next
  assume r: ?R
  let ?r2 = "drop (length tag) s"
  let ?r3 = "dropWhile is_space ?r2"
  from r have a: "\<not> word_before prev" and t: "take (length tag) s = tag"
    and d: "3 \<le> length ?r3" "list_all is_digit (take 3 ?r3)" "\<not> word_at (drop 3 ?r3)"
    by (simp_all add: code_here_def Let_def)
  have "s \<noteq> []" using t assms(1) by auto
  moreover have "hd s = hd tag" using t assms(1) by (metis hd_take length_greater_0_conv)
  ultimately have "word_at s" using assms(2) by (cases s) (simp_all add: word_at_def)
  with a have 1: "(prev, s, g) \<in> set (run WordB (prev, s, g))"
    unfolding in_run_WordB by simp
  have 2: "(Some (last tag), ?r2, g) \<in> set (run (lits tag) (prev, s, g))"
    unfolding in_run_lits using t assms(1) by simp
  obtain k where k: "k \<le> length ?r2" "list_all is_space (take k ?r2)" "drop k ?r2 = ?r3"
    using drop_dropWhile [of ?r2 is_space] by blast
  have "(if k = 0 then Some (last tag) else Some (?r2 ! (k - 1)), drop k ?r2, g)
            \<in> set (run (Rep Space 0 None) (Some (last tag), ?r2, g))"
    unfolding in_run_star in_cls_eta
    apply (intro conjI refl exI[of _ k])
    using k(1,2) by simp_all
  then have 3: "(if k = 0 then Some (last tag) else Some (?r2 ! (k - 1)), ?r3, g)
            \<in> set (run (Rep Space 0 None) (Some (last tag), ?r2, g))"
    unfolding k(3) .
  have 4: "(Some (?r3 ! 2), drop 3 ?r3, g) \<in> set (run (Rep Digit 3 (Some 3))
            (if k = 0 then Some (last tag) else Some (?r2 ! (k - 1)), ?r3, g))"
    unfolding alt3 using d by simp
  have "is_digit (?r3 ! 2)" using d(1,2) by (simp add: list_all_length)
  then have "word_before (Some (?r3 ! 2))" by (simp add: word_before_def digit_word)
  with d(3) have 5: "(Some (?r3 ! 2), drop 3 ?r3, g) \<in> set (run WordB (Some (?r3 ! 2), drop 3 ?r3, g))"
    unfolding in_run_WordB by simp
  show ?L unfolding in_run_Cat using 1 2 3 4 5 by blast
qed

lemma nonempty_iff: "xs \<noteq> [] \<longleftrightarrow> (\<exists>x. x \<in> set xs)"
  by (cases xs) auto

lemma match_at_RE_AB_CODE: "match_at RE_AB_CODE prev s \<noteq> None \<longleftrightarrow> code_here ''AB'' prev s"
  unfolding match_at_None_iff nonempty_iff RE_AB_CODE_def
  by (rule in_run_code) (simp_all add: is_word_def is_upper_AZ_def)

lemma match_at_RE_GB_CODE: "match_at RE_GB_CODE prev s \<noteq> None \<longleftrightarrow> code_here ''GB'' prev s"
  unfolding match_at_None_iff nonempty_iff RE_GB_CODE_def
  by (rule in_run_code) (simp_all add: is_word_def is_upper_AZ_def)

lemma search_has_code:
  assumes "\<And>prev s. match_at r prev s \<noteq> None \<longleftrightarrow> code_here tag prev s" and "tag \<noteq> []"
  shows "search_from r prev s \<noteq> None \<longleftrightarrow> has_code_from tag prev s"
proof (induction s arbitrary: prev)
  case Nil
  have "\<not> code_here tag prev []" using assms(2) by (simp add: code_here_def)
  then show ?case using assms(1) by simp
next
  case (Cons c cs)
  show ?case
    using assms(1) [of prev "c # cs"] Cons.IH [of "Some c"] by (auto split: option.splits)
qed

lemma str_contains_RE_AB_CODE: "str_contains RE_AB_CODE u \<longleftrightarrow> has_code ''AB'' u"
  unfolding str_contains_def re_search_def has_code_def
  by (rule search_has_code) (rule match_at_RE_AB_CODE, simp)

lemma str_contains_RE_GB_CODE: "str_contains RE_GB_CODE u \<longleftrightarrow> has_code ''GB'' u"
  unfolding str_contains_def re_search_def has_code_def
  by (rule search_has_code) (rule match_at_RE_GB_CODE, simp)

lemma match_at_lits: "match_at (lits x) prev s \<noteq> None \<longleftrightarrow> take (length x) s = x"
  by (simp add: match_at_def run_lits)

lemma search_lits: "search_from (lits x) prev s \<noteq> None \<longleftrightarrow> contains x s"
proof (induction s arbitrary: prev)
  case Nil
  then show ?case using match_at_lits [of x prev "[]"] by auto
next
  case (Cons c cs)
  show ?case
    using match_at_lits [of x prev "c # cs"] Cons.IH [of "Some c"] by (auto split: option.splits)
qed

lemma str_contains_lits: "str_contains (lits x) u \<longleftrightarrow> contains x u"
  unfolding str_contains_def re_search_def by (rule search_lits)

lemma match_at_litsI:
  "match_at (litsI x) prev s \<noteq> None \<longleftrightarrow> take (length x) (upper s) = upper x"
proof -
  have "take (length x) (upper s) = upper x \<longleftrightarrow>
        length x \<le> length s \<and> upper (take (length x) s) = upper x"
    by (auto simp: upper_def take_map) (metis length_map length_take min.absorb_iff2 nat_le_linear take_all)
  then show ?thesis by (simp add: match_at_def run_litsI)
qed

lemma search_litsI:
  "search_from (Alt (litsI x) (litsI y)) prev s \<noteq> None \<longleftrightarrow>
     contains (upper x) (upper s) \<or> contains (upper y) (upper s)"
proof (induction s arbitrary: prev)
  case Nil
  show ?case
    using match_at_Alt [of "litsI x" "litsI y" prev "[]"]
      match_at_litsI [of x prev "[]"] match_at_litsI [of y prev "[]"]
    by (auto simp: upper_def)
next
  case (Cons c cs)
  have u: "upper (c # cs) = upper_char c # upper cs" by (simp add: upper_def)
  have l: "length (upper x) = length x" "length (upper y) = length y" by (simp_all add: upper_def)
  show ?case
    using match_at_Alt [of "litsI x" "litsI y" prev "c # cs"]
      match_at_litsI [of x prev "c # cs"] match_at_litsI [of y prev "c # cs"]
      Cons.IH [of "Some c"]
    unfolding u by (auto simp: l split: option.splits)
qed

lemma upper_char_AZ: "is_upper_AZ c \<Longrightarrow> upper_char c = c"
  by (simp add: is_upper_AZ_def, elim disjE) (simp_all add: upper_char_def)

lemma upper_char_idem: "upper_char (upper_char c) = upper_char c"
  using upper_char_cases [of c] by (auto simp: upper_char_AZ)

lemma upper_idem: "upper (upper s) = upper s"
  by (simp add: upper_def upper_char_idem)

lemma str_contains_RE_PANEL_TAG:
  "str_contains RE_PANEL_TAG (upper d) \<longleftrightarrow>
     contains ''PANEL'' (upper d) \<or> contains ''PANELASSY'' (upper d)"
proof -
  have "upper ''PANEL'' = ''PANEL''" "upper ''PANELASSY'' = ''PANELASSY''"
    by (simp_all add: upper_def upper_char_def)
  then show ?thesis
    using search_litsI [of "''PANEL''" "''PANELASSY''" None "upper d"]
    unfolding str_contains_def re_search_def RE_PANEL_TAG_def upper_idem by simp
qed

subsection \<open>The prefix of a duct group and the Duct Key\<close>

lemma U_eq:
  "map (\<lambda>c. upper (astype_str c)) (filter notna descriptions)
     = map upper (concat (map (\<lambda>c. case c of Str s \<Rightarrow> [s] | _ \<Rightarrow> []) descriptions))"
  by (induction descriptions) (auto split: cell.splits)

lemma U_spec:
  "concat (map (\<lambda>c. case c of Str s \<Rightarrow> [upper s] | _ \<Rightarrow> []) descriptions)
     = map upper (concat (map (\<lambda>c. case c of Str s \<Rightarrow> [s] | _ \<Rightarrow> []) descriptions))"
  by (induction descriptions) (auto split: cell.splits)

lemma list_ex_map_upper: "list_ex P (map upper ds) = list_ex (\<lambda>d. P (upper d)) ds"
  by (simp add: list_ex_iff)

lemma detect_duct_prefix_for_block_spec:
  "detect_duct_prefix_for_block descriptions = spec_prefix descriptions"
  unfolding detect_duct_prefix_for_block_def spec_prefix_def U_eq U_spec Let_def
    list_ex_map_upper str_contains_RE_AB_CODE str_contains_RE_GB_CODE
    str_contains_RE_PANEL_TAG str_contains_lits
  by (rule refl)

lemma detect_duct_prefix_for_block_range:
  "detect_duct_prefix_for_block ds \<in> {Str ''AB'', Str ''GB'', PyNone}"
  by (simp add: detect_duct_prefix_for_block_def Let_def)

lemma duct_keys:
  "set (remdups (concat (map (\<lambda>c. case c of Str d \<Rightarrow> [d] | _ \<Rightarrow> []) (map fst df))))
     = {d. \<exists>r \<in> set df. fst r = Str d}"
  by (induction df) (auto split: cell.splits)

lemma build_duct_key_column_alt:
  "build_duct_key_column df =
     (if \<forall>r \<in> set df. \<forall>d. fst r = Str d \<longrightarrow>
            \<not> notna (detect_duct_prefix_for_block (duct_group df d))
      then Inl ValueError_1d
      else Inr (map (\<lambda>r. case fst r of
                            Str d \<Rightarrow> (case detect_duct_prefix_for_block (duct_group df d) of
                                        Str p \<Rightarrow> Str (p @ d)
                                      | _ \<Rightarrow> Str d)
                          | c \<Rightarrow> Str (astype_str c))
                  df))"
proof -
  let ?ks = "remdups (concat (map (\<lambda>c. case c of Str d \<Rightarrow> [d] | _ \<Rightarrow> []) (map fst df)))"
  let ?f = "\<lambda>d. detect_duct_prefix_for_block (map snd (filter (\<lambda>r. fst r = Str d) df))"
  let ?pb = "map (\<lambda>d. (d, ?f d)) ?ks"
  have f: "?f d = detect_duct_prefix_for_block (duct_group df d)" for d
    by (simp add: duct_group_def)
  have a: "list_all (\<lambda>(d, p). \<not> notna p) ?pb \<longleftrightarrow>
        (\<forall>r \<in> set df. \<forall>d. fst r = Str d \<longrightarrow>
            \<not> notna (detect_duct_prefix_for_block (duct_group df d)))"
    unfolding list_all_iff set_map ball_simps duct_keys f by auto
  have m: "map_of ?pb d = Some (?f d)" if "r \<in> set df" "fst r = Str d" for r d
  proof -
    have "d \<in> set ?ks" unfolding duct_keys using that by blast
    then show ?thesis by (simp add: map_of_map_restrict)
  qed
  define F where "F = (\<lambda>(p, d). if notna p then Str (astype_str p @ d) else Str d)"
  define g where "g = (\<lambda>c. case c of
                             Str d \<Rightarrow> (case map_of ?pb d of Some p \<Rightarrow> p | None \<Rightarrow> NaN)
                           | _ \<Rightarrow> NaN)"
  define G where "G = (\<lambda>r :: cell \<times> cell. case fst r of
                            Str d \<Rightarrow> (case detect_duct_prefix_for_block (duct_group df d) of
                                        Str p \<Rightarrow> Str (p @ d)
                                      | _ \<Rightarrow> Str d)
                          | c \<Rightarrow> Str (astype_str c))"
  have k: "F (g (fst r), astype_str (fst r)) = G r" if "r \<in> set df" for r
  proof (cases "fst r")
    case (Str d)
    have "g (fst r) = detect_duct_prefix_for_block (duct_group df d)"
      unfolding g_def Str using m [OF that Str] by (simp add: f)
    then show ?thesis
      using detect_duct_prefix_for_block_range [of "duct_group df d"]
      by (auto simp: F_def G_def Str)
  qed (simp_all add: F_def G_def g_def)
  have z: "map F (zip (map g (map fst xs)) (map astype_str (map fst xs)))
             = map (\<lambda>r. F (g (fst r), astype_str (fst r))) xs" for xs :: "(cell \<times> cell) list"
    by (induction xs) simp_all
  have "map F (zip (map g (map fst df)) (map astype_str (map fst df))) = map G df"
    unfolding z by (rule map_cong [OF refl]) (rule k)
  then have e: "map (\<lambda>(p, d). if notna p then Str (astype_str p @ d) else Str d)
          (zip (map (\<lambda>c. case c of
                             Str d \<Rightarrow> (case map_of ?pb d of Some p \<Rightarrow> p | None \<Rightarrow> NaN)
                           | _ \<Rightarrow> NaN) (map fst df))
               (map astype_str (map fst df)))
        = map (\<lambda>r. case fst r of
                            Str d \<Rightarrow> (case detect_duct_prefix_for_block (duct_group df d) of
                                        Str p \<Rightarrow> Str (p @ d)
                                      | _ \<Rightarrow> Str d)
                          | c \<Rightarrow> Str (astype_str c)) df"
    unfolding F_def g_def G_def .
  show ?thesis
    unfolding build_duct_key_column_def Let_def a e by (rule refl)
qed

lemmas prefix_eval =
  detect_duct_prefix_for_block_def str_contains_def RE_AB_CODE_def RE_GB_CODE_def
  RE_PANEL_TAG_def word_before_def word_at_def

lemmas spec_prefix_eval =
  spec_prefix_def has_code_def code_here_def word_before_def word_at_def

text \<open>
  C3, as amended. For the descriptions of a duct group,
  \<^const>\<open>detect_duct_prefix_for_block\<close> returns AB if some upper-cased description has the
  code AB, white space or none, 3 digits as a word of its own (no letter, digit or
  underscore right before AB or right after the digits); otherwise GB under the same
  rule for GB; otherwise AB if some description contains PANEL or PANELASSY, in any
  case, and also AB; otherwise GB under the same rule for GB; otherwise null. The
  decision is made once for the group: in a table where some duct group has a prefix
  the key column is built, and every row with Duct No d gets the Duct Key prefix + d,
  with the prefix of the group of d, and d itself when that group has none.
\<close>

theorem prefix_resolver:
  "detect_duct_prefix_for_block descriptions = spec_prefix descriptions
   \<and> ((\<exists>r \<in> set df. \<exists>d. fst r = Str d \<and> spec_prefix (duct_group df d) \<noteq> PyNone)
        \<longrightarrow> (\<exists>keys. build_duct_key_column df = Inr keys))
   \<and> (\<forall>keys. build_duct_key_column df = Inr keys \<longrightarrow>
         length keys = length df
         \<and> (\<forall>i d. i < length df \<and> fst (df ! i) = Str d \<longrightarrow>
               keys ! i = (case spec_prefix (duct_group df d) of
                             Str p \<Rightarrow> Str (p @ d)
                           | _ \<Rightarrow> Str d)))"
proof (intro conjI allI impI)
  show "detect_duct_prefix_for_block descriptions = spec_prefix descriptions"
    by (rule detect_duct_prefix_for_block_spec)
next
  assume "\<exists>r \<in> set df. \<exists>d. fst r = Str d \<and> spec_prefix (duct_group df d) \<noteq> PyNone"
  then obtain r d where r: "r \<in> set df" "fst r = Str d"
    and p: "spec_prefix (duct_group df d) \<noteq> PyNone"
    by blast
  have "spec_prefix (duct_group df d) \<in> {Str ''AB'', Str ''GB'', PyNone}"
    using detect_duct_prefix_for_block_range [of "duct_group df d"]
    unfolding detect_duct_prefix_for_block_spec .
  with p have "notna (detect_duct_prefix_for_block (duct_group df d))"
    unfolding detect_duct_prefix_for_block_spec by auto
  with r have "\<not> (\<forall>r \<in> set df. \<forall>d. fst r = Str d \<longrightarrow>
            \<not> notna (detect_duct_prefix_for_block (duct_group df d)))"
    by blast
  then show "\<exists>keys. build_duct_key_column df = Inr keys"
    unfolding build_duct_key_column_alt by simp
next
  fix keys assume "build_duct_key_column df = Inr keys"
  then have k: "keys = map (\<lambda>r. case fst r of
                            Str d \<Rightarrow> (case spec_prefix (duct_group df d) of
                                        Str p \<Rightarrow> Str (p @ d)
                                      | _ \<Rightarrow> Str d)
                          | c \<Rightarrow> Str (astype_str c)) df"
    unfolding build_duct_key_column_alt detect_duct_prefix_for_block_spec
    by (simp split: if_splits)
  show "length keys = length df" unfolding k by simp
  fix i d assume "i < length df \<and> fst (df ! i) = Str d"
  then show "keys ! i = (case spec_prefix (duct_group df d) of
                             Str p \<Rightarrow> Str (p @ d)
                           | _ \<Rightarrow> Str d)"
    unfolding k by simp
qed

theorem prefix_resolver_witness:
  "spec_prefix [Str ''panel one'', Str ''see ab 123.''] = Str ''AB''
   \<and> build_duct_key_column
        [(Str ''637'', Str ''panel one''), (Str ''638'', Str ''XAB123''),
         (Str ''637'', Str ''see ab 123.'')]
       = Inr [Str ''AB637'', Str ''638'', Str ''AB637'']"
proof -
  let ?df = "[(Str ''637'', Str ''panel one''), (Str ''638'', Str ''XAB123''),
         (Str ''637'', Str ''see ab 123.'')]"
  have g: "duct_group ?df ''637'' = [Str ''panel one'', Str ''see ab 123.'']"
    "duct_group ?df ''638'' = [Str ''XAB123'']"
    by (simp_all add: duct_group_def)
  have s: "spec_prefix [Str ''panel one'', Str ''see ab 123.''] = Str ''AB''"
    "spec_prefix [Str ''XAB123''] = PyNone"
    by (simp_all add: spec_prefix_eval text_eval)
  note t = prefix_resolver [of "[]" ?df]
  have "\<exists>r \<in> set ?df. \<exists>d. fst r = Str d \<and> spec_prefix (duct_group ?df d) \<noteq> PyNone"
    by (rule bexI [of _ "(Str ''637'', Str ''panel one'')"], rule exI [of _ "''637''"])
       (simp_all add: g s)
  with t obtain keys where k: "build_duct_key_column ?df = Inr keys" by blast
  with t have l: "length keys = length ?df"
    and n: "\<forall>i d. i < length ?df \<and> fst (?df ! i) = Str d \<longrightarrow>
               keys ! i = (case spec_prefix (duct_group ?df d) of
                             Str p \<Rightarrow> Str (p @ d)
                           | _ \<Rightarrow> Str d)"
    by blast+
  have 0: "keys ! 0 = Str ''AB637''" using n [rule_format, of 0 "''637''"] by (simp add: g s)
  have 1: "keys ! 1 = Str ''638''" using n [rule_format, of 1 "''638''"] by (simp add: g s)
  have 2: "keys ! 2 = Str ''AB637''" using n [rule_format, of 2 "''637''"] by (simp add: g s)
  from l obtain a b c where "keys = [a, b, c]"
    by (auto simp: length_Suc_conv)
  with 0 1 2 have "keys = [Str ''AB637'', Str ''638'', Str ''AB637'']"
    by (simp add: numeral_2_eq_2)
  with k s(1) show ?thesis by simp
qed

text \<open>
  C3 as stated fails: the description XAB123 contains AB and exactly 3 digits, and the
  group gets no prefix, since AB does not start a word there.
\<close>

theorem prefix_without_word_boundary_counterexample:
  "loose_has_code ''AB'' (upper ''XAB123'')
   \<and> detect_duct_prefix_for_block [Str ''XAB123''] = PyNone"
proof
  show "loose_has_code ''AB'' (upper ''XAB123'')"
    by (simp add: loose_code_here_def text_eval)
  show "detect_duct_prefix_for_block [Str ''XAB123''] = PyNone"
    by (simp add: prefix_eval regex_eval text_eval)
qed

subsection \<open>The Duct Key of a row without Duct No\<close>

text \<open>
  C1 says that the Duct Key of a row is null exactly when its Duct No is null. The
  program does otherwise in a table that it loads: beside a row of duct 637, whose
  group has the prefix AB, the row whose DU Code holds no duct number has a null Duct
  No, and its Duct Key is the text \<^verbatim>\<open>None\<close>, what \<^verbatim>\<open>astype(str)\<close> makes of the missing
  Duct No in the branch of \<^verbatim>\<open>np.where\<close> for a row without prefix.
\<close>

theorem duct_key_of_row_without_duct_no:
  "\<exists>big.
     load_uploaded_excels (\<lambda>column i. None :: rat option) (\<lambda>column i. None)
       [UploadedFile (Some ''list.xlsx'')
          (Inr [(REQUIRED_COLS,
                 [example_cells ''AHU-04-637P02'' ''PANEL AB'' (Str ''12''),
                  example_cells ''NO-MATCH-HERE'' ''FLANGE'' (Str ''3'')])])]
       = Inr (big, [])
     \<and> map (\<lambda>r. (Duct_No r, Duct_Key r)) big
           = [(Str ''637'', Str ''AB637''), (PyNone, Str ''None'')]"
proof -
  let ?tn = "\<lambda>column i. None :: rat option"
  let ?td = "\<lambda>column i. None :: int option"
  let ?c1 = "example_cells ''AHU-04-637P02'' ''PANEL AB'' (Str ''12'')"
  let ?c2 = "example_cells ''NO-MATCH-HERE'' ''FLANGE'' (Str ''3'')"
  let ?files = "[UploadedFile (Some ''list.xlsx'') (Inr [(REQUIRED_COLS, [?c1, ?c2])])]"
  let ?big = "[zip REQUIRED_COLS ?c1, zip REQUIRED_COLS ?c2]"
  have u: "usable_sheets ?files = [(REQUIRED_COLS, [?c1, ?c2])]"
    by (simp add: usable_sheets_def df_empty_def REQUIRED_COLS_def)
  have e: "read_errors ?files = []" by (simp add: read_errors_def)
  have z: "zip (map (\<lambda>r. extract_duct_no (col r ''DU Code'')) ?big)
               (map (\<lambda>r. col r ''DU Description'') ?big)
             = [(Str ''637'', Str ''PANEL AB''), (PyNone, Str ''FLANGE'')]"
    by (simp add: example_cells_col extract_duct_no_example)
  have "\<not> (\<exists>e. derive ?tn ?td ?big = Inl e)"
    unfolding derive_Inl z by (simp add: build_duct_key_column_example)
  then obtain big where d: "derive ?tn ?td ?big = Inr big"
    by (cases "derive ?tn ?td ?big") auto
  then have l: "load_uploaded_excels ?tn ?td ?files = Inr (big, [])"
    unfolding load_cases u e using example_sheet_columns [of "[?c1, ?c2]" "[]"]
    by (simp add: example_sheet_records)
  have k: "map Duct_Key big = [Str ''AB637'', Str ''None'']"
    using derive_Inr_key [OF d] unfolding z by (simp add: build_duct_key_column_example)
  have n: "Duct_No (big ! 0) = Str ''637''" "Duct_No (big ! 1) = PyNone"
    using derive_Inr(10) [OF d, of 0] derive_Inr(10) [OF d, of 1]
    by (simp_all add: example_cells_col extract_duct_no_example)
  from k obtain a b where "big = [a, b]" by auto
  with k n have m: "map (\<lambda>r. (Duct_No r, Duct_Key r)) big
           = [(Str ''637'', Str ''AB637''), (PyNone, Str ''None'')]"
    by simp
  show ?thesis by (rule exI [of _ big], rule conjI) (rule l, rule m)
qed

subsection \<open>The detailed summary\<close>

lemma key_text_null_last: "key_text c = key_text d \<longleftrightarrow> null_last c = null_last d"
  by (cases c; cases d) (simp_all add: key_text_def null_last_def)

lemma before_null_last: "before c d \<longleftrightarrow> null_last c < null_last d"
  by (cases c; cases d) (simp_all add: null_last_def)








lemma lex_le_2:
  fixes a a' :: "'a::linorder" and b b' :: "'b::linorder"
  shows "(a, b) \<le> (a', b') \<longleftrightarrow> a < a' \<or> a = a' \<and> b \<le> b'"
  by (auto simp: less_eq_prod_def)

lemma le_less_or_eq: "x \<le> y \<longleftrightarrow> x < y \<or> x = y" for x y :: "'a::linorder"
  by auto






















subsection \<open>The order of the master sheet\<close>

lemma in_run_plus:
  "(q, r, g') \<in> set (run (Rep x 1 None) (prev, s, g)) \<longleftrightarrow>
     g' = g \<and> (\<exists>k. 1 \<le> k \<and> k \<le> length s \<and> list_all (in_cls x) (take k s) \<and> r = drop k s
        \<and> q = (if k = 0 then prev else Some (s ! (k - 1))))"
  unfolding in_run_Rep rep_run_iff by simp

lemma digits_to_end:
  assumes "\<not> ends_nl s"
  shows "(\<exists>q r g'. (q, r, g') \<in> set (run (Rep Digit 1 None) (prev, s, g)) \<and> at_end r)
           \<longleftrightarrow> s \<noteq> [] \<and> list_all is_digit s"
    and "(q, r, g') \<in> set (run (Rep Digit 1 None) (prev, s, g)) \<Longrightarrow> at_end r
           \<Longrightarrow> r = [] \<and> g' = g"
proof -
  show "(\<exists>q r g'. (q, r, g') \<in> set (run (Rep Digit 1 None) (prev, s, g)) \<and> at_end r)
           \<longleftrightarrow> s \<noteq> [] \<and> list_all is_digit s" (is "?L \<longleftrightarrow> ?R")
  proof
    assume ?L
    then obtain r k where k: "1 \<le> k" "k \<le> length s" "list_all is_digit (take k s)"
      "r = drop k s" "at_end r"
      unfolding in_run_plus in_cls_eta by blast
    have "length s \<le> k" using k(4,5) at_end_drop [OF assms, of k] by simp
    then show ?R using k(1,2,3) by auto
  next
    assume r: ?R
    have "(Some (s ! (length s - 1)), [], g) \<in> set (run (Rep Digit 1 None) (prev, s, g))"
      unfolding in_run_plus in_cls_eta
      apply (intro conjI refl exI[of _ "length s"])
      using r by (auto simp: Suc_le_eq)
    then show ?L unfolding at_end_def by blast
  qed
next
  assume a: "(q, r, g') \<in> set (run (Rep Digit 1 None) (prev, s, g))" "at_end r"
  then obtain k where k: "r = drop k s" "g' = g" unfolding in_run_plus by blast
  have "r \<noteq> [CHR 0x0A]" unfolding k(1) using assms by (rule drop_not_nl)
  with a(2) k(2) show "r = [] \<and> g' = g" by (simp add: at_end_def)
qed

lemma nonempty_iff3: "xs \<noteq> [] \<longleftrightarrow> (\<exists>q r g. (q, r, g) \<in> set xs)"
  by (cases xs) auto

lemma match_at_RE_NUMERIC:
  assumes "\<not> ends_nl s"
  shows "match_at RE_NUMERIC None s \<noteq> None \<longleftrightarrow> is_numeric_mark s"
proof -
  have "match_at RE_NUMERIC None s \<noteq> None \<longleftrightarrow>
        (\<exists>q r g'. (q, r, g') \<in> set (run (Rep Digit 1 None) (None, s, [])) \<and> at_end r)"
    unfolding match_at_None_iff nonempty_iff3 RE_NUMERIC_def in_run_Cat [of _ Bol] in_run_Bol
      in_run_Cat_Eol
    by blast
  then show ?thesis unfolding digits_to_end(1) [OF assms] is_numeric_mark_def .
qed

lemma is_numeric_spec: "is_numeric r = is_numeric_mark (mark r)"
  unfolding is_numeric_def re_match_def mark_def
  by (rule match_at_RE_NUMERIC) (rule upper_strip_no_final_newline)

lemma match_at_RE_PANEL_NO:
  assumes "\<not> ends_nl s"
  shows "match_at RE_PANEL_NO prev s =
           (if prev = None \<and> is_panel_mark s then Some [drop 1 s] else None)"
proof (cases "run RE_PANEL_NO (prev, s, [])")
  case Nil
  have "\<not> (prev = None \<and> is_panel_mark s)"
  proof
    assume p: "prev = None \<and> is_panel_mark s"
    then obtain s1 where s: "s = CHR ''P'' # s1" and d: "s1 \<noteq> []" "list_all is_digit s1"
      by (cases s) (auto simp: is_panel_mark_def)
    have n: "\<not> ends_nl s1" using assms s ends_nl_tl by blast
    obtain q r g' where e: "(q, r, g') \<in> set (run (Rep Digit 1 None) (Some (CHR ''P''), s1, []))"
      "at_end r"
      using digits_to_end(1) [OF n, of "Some (CHR ''P'')" "[]"] d by blast
    from digits_to_end(2) [OF n e] have r: "r = []" "g' = []" by simp_all
    have "(q, r, g' @ [take (length s1 - length r) s1])
            \<in> set (run (Grp (Rep Digit 1 None)) (Some (CHR ''P''), s1, []))"
      unfolding in_run_Grp using e(1) by blast
    then have "(q, r, g' @ [take (length s1 - length r) s1])
            \<in> set (run (Cat (Grp (Rep Digit 1 None)) Eol) (Some (CHR ''P''), s1, []))"
      unfolding in_run_Cat_Eol using e(2) by simp
    moreover have "(Some (CHR ''P''), s1, []) \<in> set (run (Sym (Lit (CHR ''P''))) (None, s, []))"
      unfolding in_run_Sym s by simp
    moreover have "(None, s, []) \<in> set (run Bol (prev, s, []))"
      unfolding in_run_Bol using p by simp
    ultimately have "(q, r, g' @ [take (length s1 - length r) s1]) \<in> set (run RE_PANEL_NO (prev, s, []))"
      unfolding RE_PANEL_NO_def in_run_Cat [of _ Bol] in_run_Cat [of _ "Sym (Lit (CHR ''P''))"]
      by blast
    with Nil show False by simp
  qed
  with Nil show ?thesis by (simp add: match_at_def)
next
  case (Cons st sts)
  obtain q r g' where st: "st = (q, r, g')" by (cases st) auto
  have "(q, r, g') \<in> set (run RE_PANEL_NO (prev, s, []))" using Cons st by simp
  then obtain q1 r1 g1 q2 r2 g2 where
    1: "(q1, r1, g1) \<in> set (run Bol (prev, s, []))" and
    2: "(q2, r2, g2) \<in> set (run (Sym (Lit (CHR ''P''))) (q1, r1, g1))" and
    3: "(q, r, g') \<in> set (run (Cat (Grp (Rep Digit 1 None)) Eol) (q2, r2, g2))"
    unfolding RE_PANEL_NO_def in_run_Cat [of _ Bol] in_run_Cat [of _ "Sym (Lit (CHR ''P''))"]
    by blast
  from 1 have p: "prev = None" and e1: "r1 = s" "g1 = []" unfolding in_run_Bol by simp_all
  from 2 e1 have s: "s = CHR ''P'' # r2" and g2: "g2 = []" unfolding in_run_Sym by simp_all
  have n: "\<not> ends_nl r2" using assms s ends_nl_tl by blast
  from 3 obtain g3 where g: "g' = g3 @ [take (length r2 - length r) r2]"
    and 4: "(q, r, g3) \<in> set (run (Rep Digit 1 None) (q2, r2, g2))" and e: "at_end r"
    unfolding in_run_Cat_Eol in_run_Grp by blast
  from digits_to_end(2) [OF n 4 e] g2 have r: "r = []" "g3 = []" by simp_all
  have d: "r2 \<noteq> [] \<and> list_all is_digit r2"
    using digits_to_end(1) [OF n, of q2 g2] 4 e by blast
  have "is_panel_mark s" using s d by (simp add: is_panel_mark_def)
  moreover have "g' = [drop 1 s]" using g r s by simp
  ultimately show ?thesis using Cons st p by (simp add: match_at_def)
qed

lemma search_RE_PANEL_NO_later: "search_from RE_PANEL_NO (Some c) s = None"
proof (induction s arbitrary: c)
  case Nil
  have "run RE_PANEL_NO (Some c, [], []) = []" by (simp add: RE_PANEL_NO_def)
  then show ?case by (simp add: match_at_def)
next
  case (Cons d ds)
  have "run RE_PANEL_NO (Some c, d # ds, []) = []" by (simp add: RE_PANEL_NO_def)
  then show ?case using Cons.IH by (simp add: match_at_def)
qed

lemma re_search_RE_PANEL_NO:
  assumes "\<not> ends_nl s"
  shows "re_search RE_PANEL_NO s = (if is_panel_mark s then Some [drop 1 s] else None)"
proof (cases s)
  case Nil
  then show ?thesis
    using match_at_RE_PANEL_NO [OF assms, of None] by (simp add: re_search_def)
next
  case (Cons c cs)
  then show ?thesis
    using match_at_RE_PANEL_NO [OF assms, of None] search_RE_PANEL_NO_later [of c cs]
    by (simp add: re_search_def)
qed

lemma panel_num_spec:
  "panel_num r = (if is_panel_mark (mark r) then Some (int_of_digits (drop 1 (mark r))) else None)"
proof -
  have "\<not> ends_nl (mark r)" unfolding mark_def by (rule upper_strip_no_final_newline)
  then show ?thesis by (simp add: panel_num_def re_search_RE_PANEL_NO)
qed



lemma digit_val_digit_of: "is_digit c \<Longrightarrow> digit_val c = digit_of c"
  unfolding is_digit_def by (simp, elim disjE) (simp_all add: digit_val_def digit_of_def)

lemma int_of_digits_snoc: "int_of_digits (s @ [c]) = 10 * int_of_digits s + digit_val c"
  by (simp add: int_of_digits_def)

lemma number_of_snoc: "number_of (s @ [c]) = 10 * number_of s + digit_of c"
  by (simp add: number_of_def)

lemma int_of_digits_number_of: "list_all is_digit s \<Longrightarrow> int_of_digits s = number_of s"
proof (induction s rule: rev_induct)
  case Nil
  then show ?case by (simp add: int_of_digits_def number_of_def)
next
  case (snoc c s)
  then show ?case
    unfolding int_of_digits_snoc number_of_snoc by (simp add: digit_val_digit_of)
qed

lemma mark_cases:
  "mark_text r = Some (mark r)
   \<or> mark_text r = None \<and> \<not> is_panel_mark (mark r) \<and> \<not> is_numeric_mark (mark r)"
proof (cases "Mark_No r")
  case NaN
  then show ?thesis
    by (simp add: mark_text_def mark_def is_panel_mark_def is_numeric_mark_def text_eval)
next
  case PyNone
  then show ?thesis
    by (simp add: mark_text_def mark_def is_panel_mark_def is_numeric_mark_def text_eval)
next
  case (Str s)
  then show ?thesis by (simp add: mark_text_def mark_def)
qed

lemma panel_not_numeric: "is_panel_mark m \<Longrightarrow> \<not> is_numeric_mark m"
  by (cases m) (auto simp: is_panel_mark_def is_numeric_mark_def is_digit_def)

lemma grp_spec: "grp r = mark_group (mark_text r)"
  using mark_cases [of r]
  by (auto simp: grp_def mark_group_def panel_num_spec is_numeric_spec)

lemma ord1_spec:
  "ord1 r = (if mark_group (mark_text r) = 0 then mark_number (mark_text r) else 1000000000)"
proof -
  have "int_of_digits (drop 1 (mark r)) = number_of (drop 1 (mark r))" if "is_panel_mark (mark r)"
    using that by (intro int_of_digits_number_of) (simp add: is_panel_mark_def)
  then show ?thesis
    using mark_cases [of r]
    by (auto simp: ord1_def panel_num_spec mark_number_def mark_group_def)
qed

lemma panel_overflow_spec:
  "(case panel_num r of Some n \<Rightarrow> 9223372036854775807 < n | None \<Rightarrow> False) = panel_overflow r"
proof -
  have "int_of_digits (drop 1 (mark r)) = number_of (drop 1 (mark r))" if "is_panel_mark (mark r)"
    using that by (intro int_of_digits_number_of) (simp add: is_panel_mark_def)
  then show ?thesis
    using mark_cases [of r]
    by (auto simp: panel_num_spec panel_overflow_def)
qed

lemma master_filter_kept: "master_filter df = kept df"
  unfolding master_filter_def kept_def by (rule filter_cong) auto

lemma numeric_column:
  "map (\<lambda>r. if is_numeric r then Str (mark r) else NaN) (master_filter df) = numeric_marks df"
proof -
  have "(if is_numeric r then Str (mark r) else NaN)
          = (case mark_text r of
               Some m \<Rightarrow> if is_numeric_mark m then Str m else NaN
             | None \<Rightarrow> NaN)" for r :: "'a row"
    using mark_cases [of r] by (auto simp: is_numeric_spec)
  then show ?thesis by (simp add: numeric_marks_def master_filter_kept)
qed

lemma ord2_exact:
  fixes to_numeric :: "cell list \<Rightarrow> nat \<Rightarrow> ('n::semiring_1) option"
  assumes "reads_exactly to_numeric (numeric_marks df)"
  shows "ord2 to_numeric (master_filter df)
           = map (\<lambda>r. if mark_group (mark_text r) = 1 then of_nat (mark_number (mark_text r))
                       else 1000000000)
               (kept df)"
proof (rule nth_equalityI)
  show "length (ord2 to_numeric (master_filter df))
          = length (map (\<lambda>r. if mark_group (mark_text r) = 1
                              then of_nat (mark_number (mark_text r)) :: 'n
                              else 1000000000) (kept df))"
    by (simp add: ord2_def length_fillna length_coerce master_filter_kept)
next
  fix i assume "i < length (ord2 to_numeric (master_filter df))"
  then have i: "i < length (kept df)"
    by (simp add: ord2_def length_fillna length_coerce master_filter_kept)
  then have n: "i < length (numeric_marks df)" by (simp add: numeric_marks_def)
  let ?r = "kept df ! i"
  have c: "numeric_marks df ! i
             = (case mark_text ?r of
                  Some m \<Rightarrow> if is_numeric_mark m then Str m else NaN
                | None \<Rightarrow> NaN)"
    using i by (simp add: numeric_marks_def)
  have e: "to_numeric (numeric_marks df) i = Some (of_nat (number_of s))"
    if "numeric_marks df ! i = Str s" for s
  proof -
    have "(i, Str s) \<in> set (enumerate 0 (numeric_marks df))"
      using n that by (simp add: in_set_enumerate_eq)
    with assms show ?thesis unfolding reads_exactly_def list_all_iff by fastforce
  qed
  have "ord2 to_numeric (master_filter df) ! i
          = (case numeric_marks df ! i of
               Str s \<Rightarrow> (case to_numeric (numeric_marks df) i of
                           Some v \<Rightarrow> v
                         | None \<Rightarrow> 1000000000)
             | _ \<Rightarrow> 1000000000)"
    unfolding ord2_def numeric_column using n
    by (simp add: fillna_def length_coerce coerce_nth split: cell.splits)
  also have "\<dots> = (if mark_group (mark_text ?r) = 1 then of_nat (mark_number (mark_text ?r))
                    else 1000000000)"
  proof (cases "mark_text ?r")
    case None
    then show ?thesis unfolding c by (simp add: mark_group_def)
  next
    case (Some m)
    show ?thesis
    proof (cases "is_numeric_mark m")
      case True
      then have "\<not> is_panel_mark m" using panel_not_numeric by blast
      then show ?thesis
        using e [of m] True unfolding c Some by (simp add: mark_group_def mark_number_def)
    next
      case False
      then show ?thesis unfolding c Some by (simp add: mark_group_def)
    qed
  qed
  finally show "ord2 to_numeric (master_filter df) ! i
          = map (\<lambda>r. if mark_group (mark_text r) = 1 then of_nat (mark_number (mark_text r))
                       else 1000000000) (kept df) ! i"
    using i by simp
qed

lemma insort_key_map:
  "insort_key f (g x) (map g ys) = map g (insort_key (\<lambda>y. f (g y)) x ys)"
  by (induction ys) simp_all

lemma sort_key_map: "sort_key f (map g xs) = map g (sort_key (\<lambda>y. f (g y)) xs)"
  by (induction xs) (simp_all add: insort_key_map)

lemma insort_key_cong_order:
  assumes "\<And>x y. f x \<le> f y \<longleftrightarrow> g x \<le> g y"
  shows "insort_key f x ys = insort_key g x ys"
  by (induction ys) (simp_all add: assms)

lemma sort_key_cong_order:
  assumes "\<And>x y. f x \<le> f y \<longleftrightarrow> g x \<le> g y"
  shows "sort_key f xs = sort_key g xs"
proof (induction xs)
  case Nil
  then show ?case by simp
next
  case (Cons x xs)
  then show ?case using insort_key_cong_order [of f g, OF assms] by simp
qed

lemma mark_group_cases:
  "mark_group m = 0 \<or> mark_group m = 1 \<or> mark_group m = 2 \<and> mark_number m = 1000000000"
  by (simp add: mark_group_def mark_number_def split: option.splits)

lemma lex_group_number:
  fixes a a' :: "'a::linorder" and b b' :: "'b::linorder" and c c' :: "'c::linorder"
    and o2 o2' :: "'n::linorder"
  assumes "g = g' \<Longrightarrow> (o1 < o1' \<or> o1 = o1' \<and> o2 < o2') \<longleftrightarrow> n < n'"
    and "g = g' \<Longrightarrow> (o1 = o1' \<and> o2 = o2') \<longleftrightarrow> n = n'"
  shows "(a, b, g :: nat, o1 :: nat, o2, c) \<le> (a', b', g', o1', o2', c')
           \<longleftrightarrow> (a, b, g, n :: nat, c) \<le> (a', b', g', n', c')"
  using assms by (auto simp: less_eq_prod_def less_prod_def)

lemma master_key_order:
  fixes x y :: "'w row"
  shows "(null_last (Duct_Key x), null_last (Unit_No x), grp x, ord1 x,
      (if mark_group (mark_text x) = 1 then of_nat (mark_number (mark_text x))
       else 1000000000 :: 'n::linordered_semidom),
      null_last (PO_No x), null_last (DU_Code x))
     \<le> (null_last (Duct_Key y), null_last (Unit_No y), grp y, ord1 y,
         (if mark_group (mark_text y) = 1 then of_nat (mark_number (mark_text y))
          else 1000000000),
         null_last (PO_No y), null_last (DU_Code y))
   \<longleftrightarrow> (null_last (Duct_Key x), null_last (Unit_No x), mark_group (mark_text x),
          mark_number (mark_text x), null_last (PO_No x), null_last (DU_Code x))
       \<le> (null_last (Duct_Key y), null_last (Unit_No y), mark_group (mark_text y),
          mark_number (mark_text y), null_last (PO_No y), null_last (DU_Code y))"
  unfolding grp_spec
proof (rule lex_group_number)
  assume e: "mark_group (mark_text x) = mark_group (mark_text y)"
  show "(ord1 x < ord1 y \<or> ord1 x = ord1 y \<and>
           (if mark_group (mark_text x) = 1 then of_nat (mark_number (mark_text x))
            else 1000000000 :: 'n)
           < (if mark_group (mark_text y) = 1 then of_nat (mark_number (mark_text y))
              else 1000000000))
          \<longleftrightarrow> mark_number (mark_text x) < mark_number (mark_text y)"
    using mark_group_cases [of "mark_text x"] mark_group_cases [of "mark_text y"] e
    by (auto simp: ord1_spec)
  show "(ord1 x = ord1 y \<and>
           (if mark_group (mark_text x) = 1 then of_nat (mark_number (mark_text x))
            else 1000000000 :: 'n)
           = (if mark_group (mark_text y) = 1 then of_nat (mark_number (mark_text y))
              else 1000000000))
          \<longleftrightarrow> mark_number (mark_text x) = mark_number (mark_text y)"
    using mark_group_cases [of "mark_text x"] mark_group_cases [of "mark_text y"] e
    by (auto simp: ord1_spec)
qed

lemma build_master_sheet_alt:
  fixes to_numeric :: "cell list \<Rightarrow> nat \<Rightarrow> ('n::linordered_semidom) option"
    and df :: "'w row list"
  assumes "reads_exactly to_numeric (numeric_marks df)"
  shows "build_master_sheet to_numeric df =
     (if list_ex panel_overflow (kept df) then Inl CastError
      else Inr (sort_key
                  (\<lambda>r. (null_last (Duct_Key r), null_last (Unit_No r), mark_group (mark_text r),
                        mark_number (mark_text r), null_last (PO_No r), null_last (DU_Code r)))
                  (kept df)))"
proof -
  let ?h = "\<lambda>r :: 'w row. if mark_group (mark_text r) = 1 then of_nat (mark_number (mark_text r))
                       else 1000000000 :: 'n"
  let ?K = "\<lambda>(r :: 'w row, o2 :: 'n).
              (null_last (Duct_Key r), null_last (Unit_No r), grp r, ord1 r, o2,
               null_last (PO_No r), null_last (DU_Code r))"
  have p: "(\<lambda>r :: 'w row. case panel_num r of Some n \<Rightarrow> 9223372036854775807 < n | None \<Rightarrow> False)
             = panel_overflow"
    by (rule ext) (rule panel_overflow_spec)
  have z: "zip xs (map ?h xs) = map (\<lambda>r. (r, ?h r)) xs" for xs
    by (induction xs) simp_all
  have "map fst (sort_key ?K (zip (kept df) (map ?h (kept df))))
          = map fst (map (\<lambda>r. (r, ?h r)) (sort_key (\<lambda>r. ?K (r, ?h r)) (kept df)))"
    unfolding z sort_key_map ..
  also have "\<dots> = sort_key (\<lambda>r. ?K (r, ?h r)) (kept df)"
    by (simp add: comp_def)
  also have "\<dots> = sort_key
                  (\<lambda>r. (null_last (Duct_Key r), null_last (Unit_No r), mark_group (mark_text r),
                        mark_number (mark_text r), null_last (PO_No r), null_last (DU_Code r)))
                  (kept df)"
    unfolding prod.case by (rule sort_key_cong_order) (rule master_key_order)
  finally show ?thesis
    unfolding build_master_sheet_def Let_def p ord2_exact [OF assms]
    by (simp add: master_filter_kept)
qed

lemma nat_le_less_or_eq: "m \<le> n \<longleftrightarrow> m < n \<or> m = n" for m n :: nat
  by auto

lemma master_order_null_last:
  "ascending master_order x y \<longleftrightarrow>
     (null_last (Duct_Key x), null_last (Unit_No x), mark_group (mark_text x),
      mark_number (mark_text x), null_last (PO_No x), null_last (DU_Code x))
     \<le> (null_last (Duct_Key y), null_last (Unit_No y), mark_group (mark_text y),
        mark_number (mark_text y), null_last (PO_No y), null_last (DU_Code y))"
  unfolding master_order_def by_cell_def by_number_def ascending.simps fst_conv snd_conv
    key_text_null_last before_null_last lex_le_2
  using le_less_or_eq [of "null_last (DU_Code x)" "null_last (DU_Code y)"]
  by simp

lemma sorted_master:
  "sorted_wrt (ascending master_order)
     (sort_key (\<lambda>r. (null_last (Duct_Key r), null_last (Unit_No r), mark_group (mark_text r),
                     mark_number (mark_text r), null_last (PO_No r), null_last (DU_Code r)))
        xs)"
proof -
  let ?K = "\<lambda>r :: 'a row. (null_last (Duct_Key r), null_last (Unit_No r), mark_group (mark_text r),
                     mark_number (mark_text r), null_last (PO_No r), null_last (DU_Code r))"
  have "sorted (map ?K (sort_key ?K xs))" by (rule sorted_sort_key)
  then have "sorted_wrt (\<lambda>x y. ?K x \<le> ?K y) (sort_key ?K xs)" unfolding sorted_map .
  then show ?thesis unfolding master_order_null_last [abs_def] .
qed

end
